theory Spec2Isabelle
  imports Main "HOL-Library.Sublist"
begin

section \<open>JavaScript strings\<close>

text \<open>
  A JavaScript string is a sequence of UTF-16 code units. A code unit is modelled as a
  natural number and a string as a list of code units, so that the Chinese range
  \<^verbatim>\<open>\u4e00-\u9fa5\<close> of the source is the interval from 19968 to 40869.
\<close>

type_synonym jschar = nat
type_synonym jsstring = "jschar list"

definition asc :: "string \<Rightarrow> jsstring" where
  "asc s = map of_char s"

text \<open>\<open>text.indexOf(search)\<close>: the leftmost index at which \<open>search\<close> occurs, \<open>None\<close> for -1.\<close>

fun js_indexOf :: "'a list \<Rightarrow> 'a list \<Rightarrow> nat option" where
  "js_indexOf [] q = (if q = [] then Some 0 else None)"
| "js_indexOf (c # s) q =
     (if prefix q (c # s) then Some 0 else map_option Suc (js_indexOf s q))"

text \<open>\<open>text.substring(a, b)\<close> on non-negative arguments: both are clamped to the length and
  swapped when \<open>a > b\<close>; \<open>text.substring(a)\<close> runs to the end.\<close>

definition js_substring :: "'a list \<Rightarrow> nat \<Rightarrow> nat \<Rightarrow> 'a list" where
  "js_substring text a b = take (max a b - min a b) (drop (min a b) text)"

definition js_substring_from :: "'a list \<Rightarrow> nat \<Rightarrow> 'a list" where
  "js_substring_from text a = drop a text"

section \<open>replaceFirst\<close>

definition replaceFirst :: "'a list \<Rightarrow> 'a list \<Rightarrow> 'a list \<Rightarrow> 'a list" where
  "replaceFirst text search replacement =
     (case js_indexOf text search of
        None \<Rightarrow> text
      | Some index \<Rightarrow>
          js_substring text 0 index @ replacement
            @ js_substring_from text (index + length search))"

section \<open>Key Registry\<close>

text \<open>
  \<open>globalI18nMap\<close> is a plain object used as a dictionary from key to text. The assignment
  \<open>globalI18nMap[key] = value\<close> creates or overwrites the own property \<open>key\<close>; the one key
  that is not stored is \<open>__proto__\<close>, whose inherited setter ignores a string value.
\<close>

type_synonym registry = "jsstring \<rightharpoonup> jsstring"

definition proto_key :: jsstring where
  "proto_key = asc ''__proto__''"

definition register :: "registry \<Rightarrow> jsstring \<Rightarrow> jsstring \<Rightarrow> registry" where
  "register m key val = (if key = proto_key then m else m(key \<mapsto> val))"

definition generateI18nKey :: "jsstring \<Rightarrow> jsstring" where
  "generateI18nKey text = text"

text \<open>The registration of a plain term: \<open>key = generateI18nKey(term.content);
  globalI18nMap[key] = term.content\<close>, and the registrations of one file in sequence.\<close>

definition register_term :: "registry \<Rightarrow> jsstring \<Rightarrow> registry" where
  "register_term m content = (let key = generateI18nKey content in register m key content)"

definition register_terms :: "registry \<Rightarrow> jsstring list \<Rightarrow> registry" where
  "register_terms m contents = foldl register_term m contents"

section \<open>Regular expressions\<close>

text \<open>
  The regular expressions of the source are written with combinators that follow the
  backtracking semantics of JavaScript. A matcher takes the state at a position (the
  code unit before the position, the remaining input and the captures made so far) and
  returns every state in which a match can end, in the order in which the engine tries
  them; the engine takes the first. Quantifiers occur in the source on single-character
  classes only.
\<close>

type_synonym rx_state = "jschar option \<times> jsstring \<times> jsstring list"
type_synonym rx = "rx_state \<Rightarrow> rx_state list"

text \<open>Character classes: \<^verbatim>\<open>\w\<close>, \<^verbatim>\<open>\s\<close>, the line terminators that \<^verbatim>\<open>.\<close> excludes,
  and the Chinese range \<^verbatim>\<open>[\u4e00-\u9fa5]\<close>.\<close>

definition is_word :: "jschar \<Rightarrow> bool" where
  "is_word c \<longleftrightarrow> (48 \<le> c \<and> c \<le> 57) \<or> (65 \<le> c \<and> c \<le> 90) \<or> c = 95 \<or> (97 \<le> c \<and> c \<le> 122)"

definition is_line_terminator :: "jschar \<Rightarrow> bool" where
  "is_line_terminator c \<longleftrightarrow> c = 10 \<or> c = 13 \<or> c = 8232 \<or> c = 8233"

definition is_space :: "jschar \<Rightarrow> bool" where
  "is_space c \<longleftrightarrow> (9 \<le> c \<and> c \<le> 13) \<or> c = 32 \<or> c = 160 \<or> c = 5760
     \<or> (8192 \<le> c \<and> c \<le> 8202) \<or> c = 8232 \<or> c = 8233 \<or> c = 8239 \<or> c = 8287
     \<or> c = 12288 \<or> c = 65279"

definition is_dot :: "jschar \<Rightarrow> bool" where
  "is_dot c \<longleftrightarrow> \<not> is_line_terminator c"

definition is_chinese :: "jschar \<Rightarrow> bool" where
  "is_chinese c \<longleftrightarrow> 19968 \<le> c \<and> c \<le> 40869"

fun rx_cls :: "(jschar \<Rightarrow> bool) \<Rightarrow> rx" where
  "rx_cls P (prev, [], caps) = []"
| "rx_cls P (prev, c # s, caps) = (if P c then [(Some c, s, caps)] else [])"

fun rx_lit :: "jsstring \<Rightarrow> rx" where
  "rx_lit l (prev, s, caps) =
     (if l = [] then [(prev, s, caps)]
      else if prefix l s then [(Some (last l), drop (length l) s, caps)] else [])"

definition rx_seq :: "rx \<Rightarrow> rx \<Rightarrow> rx" where
  "rx_seq a b st = concat (map b (a st))"

fun rx_seqs :: "rx list \<Rightarrow> rx" where
  "rx_seqs [] st = [st]"
| "rx_seqs (r # rs) st = concat (map (rx_seqs rs) (r st))"

definition rx_alt :: "rx \<Rightarrow> rx \<Rightarrow> rx" where
  "rx_alt a b st = a st @ b st"

definition rx_opt :: "rx \<Rightarrow> rx" where
  "rx_opt a st = a st @ [st]"

text \<open>Greedy \<^verbatim>\<open>P*\<close>: the longest run first, then each shorter one; lazy \<^verbatim>\<open>P*?\<close>: the
  shortest first.\<close>

fun rx_star :: "(jschar \<Rightarrow> bool) \<Rightarrow> rx" where
  "rx_star P (prev, [], caps) = [(prev, [], caps)]"
| "rx_star P (prev, c # s, caps) =
     (if P c then rx_star P (Some c, s, caps) else []) @ [(prev, c # s, caps)]"

fun rx_star_lazy :: "(jschar \<Rightarrow> bool) \<Rightarrow> rx" where
  "rx_star_lazy P (prev, [], caps) = [(prev, [], caps)]"
| "rx_star_lazy P (prev, c # s, caps) =
     (prev, c # s, caps) # (if P c then rx_star_lazy P (Some c, s, caps) else [])"

definition rx_plus :: "(jschar \<Rightarrow> bool) \<Rightarrow> rx" where
  "rx_plus P = rx_seq (rx_cls P) (rx_star P)"

text \<open>\<^verbatim>\<open>P{m,n}\<close> as \<open>m\<close> mandatory characters followed by at most \<open>n - m\<close> more, greedily.\<close>

fun rx_times :: "(jschar \<Rightarrow> bool) \<Rightarrow> nat \<Rightarrow> rx" where
  "rx_times P 0 st = [st]"
| "rx_times P (Suc k) st = concat (map (rx_times P k) (rx_cls P st))"

fun rx_upto :: "(jschar \<Rightarrow> bool) \<Rightarrow> nat \<Rightarrow> rx" where
  "rx_upto P 0 st = [st]"
| "rx_upto P (Suc k) (prev, [], caps) = [(prev, [], caps)]"
| "rx_upto P (Suc k) (prev, c # s, caps) =
     (if P c then rx_upto P k (Some c, s, caps) else []) @ [(prev, c # s, caps)]"

definition rx_rep :: "(jschar \<Rightarrow> bool) \<Rightarrow> nat \<Rightarrow> nat \<Rightarrow> rx" where
  "rx_rep P m n = rx_seq (rx_times P m) (rx_upto P (n - m))"

text \<open>Assertions: \<^verbatim>\<open>^\<close> and \<^verbatim>\<open>$\<close> without and with the \<^verbatim>\<open>m\<close> flag, and \<^verbatim>\<open>\b\<close>.\<close>

fun rx_bol :: rx where
  "rx_bol (prev, s, caps) = (if prev = None then [(prev, s, caps)] else [])"

fun rx_eol :: rx where
  "rx_eol (prev, s, caps) = (if s = [] then [(prev, s, caps)] else [])"

fun rx_bol_m :: rx where
  "rx_bol_m (prev, s, caps) =
     (case prev of None \<Rightarrow> [(prev, s, caps)]
      | Some c \<Rightarrow> if is_line_terminator c then [(prev, s, caps)] else [])"

fun rx_eol_m :: rx where
  "rx_eol_m (prev, s, caps) =
     (case s of [] \<Rightarrow> [(prev, s, caps)]
      | c # _ \<Rightarrow> if is_line_terminator c then [(prev, s, caps)] else [])"

fun rx_wordb :: rx where
  "rx_wordb (prev, s, caps) =
     (let a = (case prev of None \<Rightarrow> False | Some c \<Rightarrow> is_word c);
          b = (case s of [] \<Rightarrow> False | c # _ \<Rightarrow> is_word c)
      in if a \<noteq> b then [(prev, s, caps)] else [])"

text \<open>A capture group records the text its body consumed.\<close>

fun rx_group :: "rx \<Rightarrow> rx" where
  "rx_group a (prev, s, caps) =
     map (\<lambda>(prev', s', caps'). (prev', s', caps' @ [take (length s - length s') s]))
       (a (prev, s, caps))"

text \<open>The \<open>n\<close>-th capture of a match (\<open>match[n + 1]\<close>).\<close>

definition rx_cap :: "jsstring list \<Rightarrow> nat \<Rightarrow> jsstring" where
  "rx_cap caps n = (if n < length caps then caps ! n else [])"

record rx_match =
  m_index :: nat
  m_text :: jsstring
  m_caps :: "jsstring list"
  m_rest :: jsstring

text \<open>\<open>regex.exec\<close> from a position: the leftmost position at which the expression
  matches, with the first way of matching there. \<open>idx\<close> is the index of the position and
  \<open>prev\<close> the code unit before it.\<close>

fun rx_exec :: "rx \<Rightarrow> jschar option \<Rightarrow> jsstring \<Rightarrow> nat \<Rightarrow> rx_match option" where
  "rx_exec r prev [] idx =
     (case r (prev, [], []) of
        [] \<Rightarrow> None
      | (prev', s', caps) # _ \<Rightarrow>
          Some \<lparr>m_index = idx, m_text = [], m_caps = caps, m_rest = s'\<rparr>)"
| "rx_exec r prev (c # s) idx =
     (case r (prev, c # s, []) of
        [] \<Rightarrow> rx_exec r (Some c) s (Suc idx)
      | (prev', s', caps) # _ \<Rightarrow>
          Some \<lparr>m_index = idx, m_text = take (length (c # s) - length s') (c # s),
                m_caps = caps, m_rest = s'\<rparr>)"

definition rx_test :: "rx \<Rightarrow> jsstring \<Rightarrow> bool" where
  "rx_test r s = (rx_exec r None s 0 \<noteq> None)"

text \<open>
  The loop \<^verbatim>\<open>while ((match = regex.exec(text)) !== null)\<close> over an expression with the
  \<^verbatim>\<open>g\<close> flag: each search starts where the previous match ended. Every expression
  that the source runs in such a loop consumes at least one character; the list ends at a
  match that would not advance.
\<close>

function rx_matches :: "rx \<Rightarrow> jschar option \<Rightarrow> jsstring \<Rightarrow> nat \<Rightarrow> rx_match list" where
  "rx_matches r prev s idx =
     (case rx_exec r prev s idx of
        None \<Rightarrow> []
      | Some m \<Rightarrow>
          m # (if m_text m \<noteq> [] \<and> length (m_rest m) < length s
               then rx_matches r (Some (last (m_text m))) (m_rest m)
                      (m_index m + length (m_text m))
               else []))"
  by pat_completeness auto
termination
  by (relation "measure (\<lambda>(r, prev, s, idx). length s)") auto

text \<open>
  \<open>text.replace(regex, replacement)\<close> with the \<^verbatim>\<open>g\<close> flag, for a replacement text without
  \<^verbatim>\<open>$\<close> patterns: every match, left to right, is replaced; after an empty match the search
  moves on by one character.
\<close>

function rx_replace_all :: "rx \<Rightarrow> jsstring \<Rightarrow> jschar option \<Rightarrow> jsstring \<Rightarrow> jsstring" where
  "rx_replace_all r rep prev s =
     (case rx_exec r prev s 0 of
        None \<Rightarrow> s
      | Some m \<Rightarrow>
          take (m_index m) s @ rep @
            (if m_text m \<noteq> [] \<and> length (m_rest m) < length s
             then rx_replace_all r rep (Some (last (m_text m))) (m_rest m)
             else (case m_rest m of [] \<Rightarrow> []
                   | c # s' \<Rightarrow> if length s' < length s
                                then c # rx_replace_all r rep (Some c) s' else c # s')))"
  by pat_completeness auto
termination
  by (relation "measure (\<lambda>(r, rep, prev, s). length s)") auto

text \<open>The two loops are unfolded on demand only.\<close>

declare rx_matches.simps [simp del] rx_replace_all.simps [simp del]

text \<open>\<open>escapeRegExp\<close> puts a backslash before each of \<^verbatim>\<open>. * + ? ^ $ { } ( ) | [ ] \\<close>, which are
  all the characters with a meaning in a pattern, so the expression built from an escaped
  text matches that text literally: \<open>new RegExp(escapeRegExp(t))\<close> is \<open>rx_lit t\<close>.\<close>

definition escapeRegExp :: "jsstring \<Rightarrow> jsstring" where
  "escapeRegExp s =
     concat (map (\<lambda>c. if c \<in> set (asc ''.*+?^${}()|[]'') \<or> c = 92 then [92, c] else [c]) s)"

section \<open>Template Interpolation Converter\<close>

text \<open>
  A JavaScript object used as an ordered dictionary: an assignment overwrites the value of
  a present key in place and appends a new key; \<open>Object.entries\<close> lists the keys that are
  array indices first, in ascending order, and the others in insertion order.
\<close>

type_synonym js_object = "(jsstring \<times> jsstring) list"

fun obj_set :: "js_object \<Rightarrow> jsstring \<Rightarrow> jsstring \<Rightarrow> js_object" where
  "obj_set [] k v = [(k, v)]"
| "obj_set ((k', v') # m) k v = (if k' = k then (k, v) # m else (k', v') # obj_set m k v)"

definition digits_value :: "jsstring \<Rightarrow> nat" where
  "digits_value k = foldl (\<lambda>n c. 10 * n + (c - 48)) 0 k"

definition is_array_index :: "jsstring \<Rightarrow> bool" where
  "is_array_index k \<longleftrightarrow> k \<noteq> [] \<and> (\<forall>c \<in> set k. 48 \<le> c \<and> c \<le> 57)
     \<and> (length k = 1 \<or> hd k \<noteq> 48) \<and> digits_value k < 4294967295"

definition obj_entries :: "js_object \<Rightarrow> (jsstring \<times> jsstring) list" where
  "obj_entries m =
     sort_key (\<lambda>(k, v). digits_value k) (filter (\<lambda>(k, v). is_array_index k) m)
       @ filter (\<lambda>(k, v). \<not> is_array_index k) m"

text \<open>\<open>parts.join(sep)\<close>.\<close>

fun js_join :: "jsstring \<Rightarrow> jsstring list \<Rightarrow> jsstring" where
  "js_join sep [] = []"
| "js_join sep [x] = x"
| "js_join sep (x # y # xs) = x @ sep @ js_join sep (y # xs)"

text \<open>\<open>String.fromCharCode(n)\<close> is the code unit \<open>n mod 65536\<close>.\<close>

definition fromCharCode :: "nat \<Rightarrow> jsstring" where
  "fromCharCode n = [n mod 65536]"

record convert_result =
  cr_key :: jsstring
  cr_converted :: jsstring
  cr_replacedText :: jsstring
  cr_mapping :: js_object

text \<open>The single quote, and the expression \<^verbatim>\<open>/\$\{([^}]+)\}/g\<close>.\<close>

definition sq :: jsstring where
  "sq = [39]"

definition variableRegex :: rx where
  "variableRegex =
     rx_seqs [rx_lit (asc ''${''), rx_group (rx_plus (\<lambda>c. c \<noteq> 125)), rx_lit (asc ''}'')]"

definition template_variables :: "jsstring \<Rightarrow> jsstring list" where
  "template_variables templateString =
     map (\<lambda>m. rx_cap (m_caps m) 0) (rx_matches variableRegex None templateString 0)"

text \<open>The body of \<open>variables.forEach((variable, index) => ...)\<close>, on the pair of the
  converted text and the mapping.\<close>

definition convert_step :: "jsstring \<times> js_object \<Rightarrow> jsstring \<times> nat \<Rightarrow> jsstring \<times> js_object" where
  "convert_step acc vi =
     (case (acc, vi) of ((convertedText, mapping), (variable, index)) \<Rightarrow>
        let newVarName = fromCharCode (97 + index)
        in (rx_replace_all (rx_lit (asc ''${'' @ variable @ asc ''}''))
              (asc ''{'' @ newVarName @ asc ''}'') None convertedText,
            obj_set mapping newVarName variable))"

definition convertTemplateToI18n ::
  "registry \<Rightarrow> jsstring \<Rightarrow> jsstring \<Rightarrow> convert_result \<times> registry" where
  "convertTemplateToI18n globalI18nMap templateString methodPrefix =
     (let variables = template_variables templateString;
          (convertedText, mapping) =
             foldl convert_step (templateString, []) (zip variables [0 ..< length variables]);
          globalI18nMap' = register globalI18nMap convertedText convertedText;
          mappingString =
             js_join (asc '', '') (map (\<lambda>(k, v). k @ asc '': '' @ v) (obj_entries mapping));
          i18nCall =
             (if mappingString \<noteq> []
              then methodPrefix @ asc ''('' @ sq @ convertedText @ sq @ asc '', {''
                     @ mappingString @ asc ''})''
              else methodPrefix @ asc ''('' @ sq @ convertedText @ sq @ asc '')'')
      in (\<lparr>cr_key = convertedText, cr_converted = i18nCall,
           cr_replacedText = convertedText, cr_mapping = mapping\<rparr>, globalI18nMap'))"

section \<open>String helpers\<close>

definition dq :: jsstring where
  "dq = [34]"

definition bq :: jsstring where
  "bq = [96]"

definition is_quote :: "jschar \<Rightarrow> bool" where
  "is_quote c \<longleftrightarrow> c = 39 \<or> c = 34"

text \<open>\<open>s.trim()\<close> removes white space and line terminators, the characters of \<^verbatim>\<open>\s\<close>, from
  both ends.\<close>

definition js_trim :: "jsstring \<Rightarrow> jsstring" where
  "js_trim s = rev (dropWhile is_space (rev (dropWhile is_space s)))"

definition js_includes :: "'a list \<Rightarrow> 'a list \<Rightarrow> bool" where
  "js_includes s q = (js_indexOf s q \<noteq> None)"

definition js_startsWith :: "'a list \<Rightarrow> 'a list \<Rightarrow> bool" where
  "js_startsWith s q = prefix q s"

definition js_endsWith :: "'a list \<Rightarrow> 'a list \<Rightarrow> bool" where
  "js_endsWith s q = suffix q s"

text \<open>\<open>s.lastIndexOf(q)\<close> and \<open>s.indexOf(q, start)\<close>.\<close>

fun js_lastIndexOf :: "'a list \<Rightarrow> 'a list \<Rightarrow> nat option" where
  "js_lastIndexOf [] q = (if q = [] then Some 0 else None)"
| "js_lastIndexOf (c # s) q =
     (case js_lastIndexOf s q of
        Some i \<Rightarrow> Some (Suc i)
      | None \<Rightarrow> if prefix q (c # s) then Some 0 else None)"

definition js_indexOf_from :: "'a list \<Rightarrow> 'a list \<Rightarrow> nat \<Rightarrow> nat option" where
  "js_indexOf_from s q start =
     (let k = min start (length s) in map_option (\<lambda>i. k + i) (js_indexOf (drop k s) q))"

definition has_chinese :: "jsstring \<Rightarrow> bool" where
  "has_chinese s = rx_test (rx_cls is_chinese) s"

text \<open>An alternation of literal texts, tried in the order written, and its variant under
  the \<^verbatim>\<open>i\<close> flag for lower-case patterns: an ASCII letter of the input matches in either
  case, no other character is folded onto an ASCII letter.\<close>

fun rx_alts :: "jsstring list \<Rightarrow> rx" where
  "rx_alts [] st = []"
| "rx_alts (l # ls) st = rx_lit l st @ rx_alts ls st"

definition to_lower :: "jschar \<Rightarrow> jschar" where
  "to_lower c = (if 65 \<le> c \<and> c \<le> 90 then c + 32 else c)"

fun rx_lit_ci :: "jsstring \<Rightarrow> rx" where
  "rx_lit_ci l (prev, s, caps) =
     (if l = [] then [(prev, s, caps)]
      else if length l \<le> length s \<and> map to_lower (take (length l) s) = l
      then [(Some (last (take (length l) s)), drop (length l) s, caps)] else [])"

fun rx_alts_ci :: "jsstring list \<Rightarrow> rx" where
  "rx_alts_ci [] st = []"
| "rx_alts_ci (l # ls) st = rx_lit_ci l st @ rx_alts_ci ls st"

section \<open>Text Normalizer\<close>

text \<open>
  The four expressions of \<open>removeComments\<close>:
  \<^verbatim>\<open>/\/\/.*$/gm\<close>, \<^verbatim>\<open>/\/\*[\s\S]*?\*\//g\<close>, \<^verbatim>\<open>/<!--[\s\S]*?-->/g\<close> and
  \<^verbatim>\<open>/^[ \t]*#.*$/gm\<close>, each replaced by the empty text, in this order.
\<close>

definition lineCommentRegex :: rx where
  "lineCommentRegex = rx_seqs [rx_lit (asc ''//''), rx_star is_dot, rx_eol_m]"

definition blockCommentRegex :: rx where
  "blockCommentRegex =
     rx_seqs [rx_lit (asc ''/*''), rx_star_lazy (\<lambda>c. True), rx_lit (asc ''*/'')]"

definition htmlCommentRegex :: rx where
  "htmlCommentRegex =
     rx_seqs [rx_lit (asc ''<!--''), rx_star_lazy (\<lambda>c. True), rx_lit (asc ''-->'')]"

definition hashCommentRegex :: rx where
  "hashCommentRegex =
     rx_seqs [rx_bol_m, rx_star (\<lambda>c. c = 32 \<or> c = 9), rx_lit (asc ''#''), rx_star is_dot,
       rx_eol_m]"

definition removeComments :: "jsstring \<Rightarrow> jsstring" where
  "removeComments text =
     (let result = text;
          result = rx_replace_all lineCommentRegex [] None result;
          result = rx_replace_all blockCommentRegex [] None result;
          result = rx_replace_all htmlCommentRegex [] None result;
          result = rx_replace_all hashCommentRegex [] None result
      in result)"

section \<open>Context Classifiers\<close>

text \<open>\<open>containsJSExpression\<close>: \<^verbatim>\<open>/\?.*:/\<close>, \<^verbatim>\<open>/[!=]==/\<close>, \<^verbatim>\<open>/[!<>]=/\<close>, \<^verbatim>\<open>/&&|\|\|/\<close>,
  \<^verbatim>\<open>/['"][^\'"]*['"]/\<close>.\<close>

definition jsPatterns :: "rx list" where
  "jsPatterns =
     [rx_seqs [rx_lit (asc ''?''), rx_star is_dot, rx_lit (asc '':'')],
      rx_seqs [rx_cls (\<lambda>c. c = 33 \<or> c = 61), rx_lit (asc ''=='')],
      rx_seqs [rx_cls (\<lambda>c. c = 33 \<or> c = 60 \<or> c = 62), rx_lit (asc ''='')],
      rx_alt (rx_lit (asc ''&&'')) (rx_lit (asc ''||'')),
      rx_seqs [rx_cls is_quote, rx_star (\<lambda>c. \<not> is_quote c), rx_cls is_quote]]"

definition containsJSExpression :: "jsstring \<Rightarrow> bool" where
  "containsJSExpression text = list_ex (\<lambda>pattern. rx_test pattern text) jsPatterns"

text \<open>\<open>isCodeLike\<close>. The code patterns are
  \<^verbatim>\<open>/\b(function|const|let|var|if|else|for|while|return|await|async|import|export)\b/\<close>,
  \<^verbatim>\<open>/[{}]/\<close>, \<^verbatim>\<open>/;$/\<close>, \<^verbatim>\<open>/=>/\<close>, \<^verbatim>\<open>/\w+\s*\(\s*\)/\<close>, \<^verbatim>\<open>/^\s*\w+\s*\(/\<close>,
  \<^verbatim>\<open>/\w+\s*=\s*[^=]/\<close>, \<^verbatim>\<open>/\w+\.\w+\s*\(/\<close>, \<^verbatim>\<open>/ElMessage\./\<close>, \<^verbatim>\<open>/console\./\<close>.\<close>

definition codeKeywords :: "jsstring list" where
  "codeKeywords = map asc [''function'', ''const'', ''let'', ''var'', ''if'', ''else'', ''for'',
     ''while'', ''return'', ''await'', ''async'', ''import'', ''export'']"

definition codePatterns :: "rx list" where
  "codePatterns =
     [rx_seqs [rx_wordb, rx_group (rx_alts codeKeywords), rx_wordb],
      rx_cls (\<lambda>c. c = 123 \<or> c = 125),
      rx_seqs [rx_lit (asc '';''), rx_eol],
      rx_lit (asc ''=>''),
      rx_seqs [rx_plus is_word, rx_star is_space, rx_lit (asc ''(''), rx_star is_space,
        rx_lit (asc '')'')],
      rx_seqs [rx_bol, rx_star is_space, rx_plus is_word, rx_star is_space, rx_lit (asc ''('')],
      rx_seqs [rx_plus is_word, rx_star is_space, rx_lit (asc ''=''), rx_star is_space,
        rx_cls (\<lambda>c. c \<noteq> 61)],
      rx_seqs [rx_plus is_word, rx_lit (asc ''.''), rx_plus is_word, rx_star is_space,
        rx_lit (asc ''('')],
      rx_lit (asc ''ElMessage.''),
      rx_lit (asc ''console.'')]"

text \<open>The class of the unit-label exemption
  \<^verbatim>\<open>/^[\u4e00-\u9fa5a-zA-Z0-9\s()...%]+$/\<close>: Chinese
  characters, letters, digits, white space, round, full-width round, square and lenticular
  brackets, the degree Celsius and degree signs and the percent sign.\<close>

definition is_label_char :: "jschar \<Rightarrow> bool" where
  "is_label_char c \<longleftrightarrow> is_chinese c \<or> (97 \<le> c \<and> c \<le> 122) \<or> (65 \<le> c \<and> c \<le> 90)
     \<or> (48 \<le> c \<and> c \<le> 57) \<or> is_space c \<or> c = 40 \<or> c = 41 \<or> c = 65288 \<or> c = 65289
     \<or> c = 91 \<or> c = 93 \<or> c = 12304 \<or> c = 12305 \<or> c = 8451 \<or> c = 176 \<or> c = 37"

definition labelRegex :: rx where
  "labelRegex = rx_seqs [rx_bol, rx_plus is_label_char, rx_eol]"

text \<open>\<^verbatim>\<open>/\w+\s*\(/\<close>\<close>

definition callRegex :: rx where
  "callRegex = rx_seqs [rx_plus is_word, rx_star is_space, rx_lit (asc ''('')]"

definition isCodeLike :: "jsstring \<Rightarrow> bool" where
  "isCodeLike text =
     (if rx_test labelRegex text
      then (if rx_test callRegex text \<and> \<not> has_chinese (takeWhile (\<lambda>c. c \<noteq> 40) text)
            then True else False)
      else list_ex (\<lambda>pattern. rx_test pattern text) codePatterns)"

text \<open>\<open>isFilePath\<close>: \<^verbatim>\<open>/^\.{1,2}\//\<close>, \<^verbatim>\<open>/^@\//\<close>, \<^verbatim>\<open>/^~\//\<close>, \<^verbatim>\<open>/^\/[^/]/\<close>, the list of file
  extensions \<^verbatim>\<open>/\.(png|jpg|...|md)$/i\<close>, and \<^verbatim>\<open>/\.\w{2,4}$/\<close>.\<close>

definition fileExtensions :: "jsstring list" where
  "fileExtensions = map asc [''png'', ''jpg'', ''jpeg'', ''gif'', ''svg'', ''webp'', ''bmp'',
     ''ico'', ''mp4'', ''mp3'', ''wav'', ''pdf'', ''doc'', ''docx'', ''xls'', ''xlsx'', ''zip'',
     ''rar'', ''ttf'', ''woff'', ''woff2'', ''eot'', ''otf'', ''css'', ''scss'', ''less'',
     ''json'', ''xml'', ''txt'', ''md'']"

definition filePathPatterns :: "rx list" where
  "filePathPatterns =
     [rx_seqs [rx_bol, rx_rep (\<lambda>c. c = 46) 1 2, rx_lit (asc ''/'')],
      rx_seqs [rx_bol, rx_lit (asc ''@/'')],
      rx_seqs [rx_bol, rx_lit (asc ''~/'')],
      rx_seqs [rx_bol, rx_lit (asc ''/''), rx_cls (\<lambda>c. c \<noteq> 47)],
      rx_seqs [rx_lit (asc ''.''), rx_group (rx_alts_ci fileExtensions), rx_eol]]"

definition isFilePath :: "jsstring \<Rightarrow> bool" where
  "isFilePath text =
     (let hasPathSeparator = (js_includes text (asc ''/'') \<or> js_includes text [92]);
          hasFileExtension =
            rx_test (rx_seqs [rx_lit (asc ''.''), rx_rep is_word 2 4, rx_eol]) text
      in if hasPathSeparator \<and> hasFileExtension then True
         else list_ex (\<lambda>pattern. rx_test pattern text) filePathPatterns)"

text \<open>
  \<open>isInDefineProps\<close>. The loop runs over \<open>betweenText\<close> with the index \<open>i\<close>, the previous
  character (\<open>None\<close> for the empty text at \<open>i = 0\<close>), the count of open parentheses, which
  may become negative, and the string state; it returns early with \<open>false\<close>. The position
  is a match index, hence never negative.
\<close>

fun defineProps_loop ::
  "jsstring \<Rightarrow> nat \<Rightarrow> jschar option \<Rightarrow> int \<Rightarrow> bool \<Rightarrow> jschar option \<Rightarrow> bool" where
  "defineProps_loop [] i prevChar openParens inString stringChar = (openParens > 0)"
| "defineProps_loop (char # rest) i prevChar openParens inString stringChar =
     (let (inString', stringChar') =
            (if (char = 34 \<or> char = 39 \<or> char = 96) \<and> prevChar \<noteq> Some 92
             then (if \<not> inString then (True, Some char)
                   else if Some char = stringChar then (False, None)
                   else (inString, stringChar))
             else (inString, stringChar))
      in if \<not> inString'
         then (let openParens' = (if char = 40 then openParens + 1 else openParens);
                   openParens'' = (if char = 41 then openParens' - 1 else openParens')
               in if openParens'' = 0 \<and> i > 11 then False
                  else defineProps_loop rest (Suc i) (Some char) openParens'' inString' stringChar')
         else defineProps_loop rest (Suc i) (Some char) openParens inString' stringChar')"

definition isInDefineProps :: "jsstring \<Rightarrow> nat \<Rightarrow> bool" where
  "isInDefineProps text textPosition =
     (let beforeText = js_substring text 0 textPosition
      in case js_lastIndexOf beforeText (asc ''defineProps('') of
           None \<Rightarrow> False
         | Some definePropsMatch \<Rightarrow>
             defineProps_loop (js_substring text definePropsMatch textPosition)
               0 None 0 False None)"

text \<open>
  \<open>isAlreadyInternationalized\<close>. The patterns on the text itself are \<^verbatim>\<open>/\$t\s*\(/\<close>,
  \<^verbatim>\<open>/\bt\s*\(/\<close>, \<^verbatim>\<open>/i18n\.t\s*\(/\<close>, \<^verbatim>\<open>/i18n\.global\.t\s*\(/\<close>; the patterns on the 25
  characters before the quote are the same four followed by \<^verbatim>\<open>\s*$\<close>, and
  \<^verbatim>\<open>/\{\{\s*\$t\s*\(\s*$/\<close> and \<^verbatim>\<open>/:[\w-]+\s*=\s*["`]?\s*\$t\s*\(\s*$/\<close>.
\<close>

definition is_attr_char :: "jschar \<Rightarrow> bool" where
  "is_attr_char c \<longleftrightarrow> is_word c \<or> c = 45"

definition rx_call :: "rx \<Rightarrow> rx" where
  "rx_call name = rx_seqs [name, rx_star is_space, rx_lit (asc ''('')]"

definition i18nPatterns :: "rx list" where
  "i18nPatterns =
     [rx_call (rx_lit (asc ''$t'')),
      rx_call (rx_seq rx_wordb (rx_lit (asc ''t''))),
      rx_call (rx_lit (asc ''i18n.t'')),
      rx_call (rx_lit (asc ''i18n.global.t''))]"

definition rx_at_end :: "rx \<Rightarrow> rx" where
  "rx_at_end r = rx_seqs [r, rx_star is_space, rx_eol]"

definition directI18nPatterns :: "rx list" where
  "directI18nPatterns =
     [rx_at_end (rx_call (rx_lit (asc ''$t''))),
      rx_at_end (rx_call (rx_seq rx_wordb (rx_lit (asc ''t'')))),
      rx_at_end (rx_call (rx_lit (asc ''i18n.t''))),
      rx_at_end (rx_call (rx_lit (asc ''i18n.global.t''))),
      rx_at_end (rx_seqs [rx_lit (asc ''{{''), rx_star is_space, rx_call (rx_lit (asc ''$t''))]),
      rx_at_end (rx_seqs [rx_lit (asc '':''), rx_plus is_attr_char, rx_star is_space,
        rx_lit (asc ''=''), rx_star is_space, rx_opt (rx_cls (\<lambda>c. c = 34 \<or> c = 96)),
        rx_star is_space, rx_call (rx_lit (asc ''$t''))])]"

definition direct_test :: "jsstring \<Rightarrow> nat \<Rightarrow> bool" where
  "direct_test surroundingText textIndex =
     (let beforeQuote = js_substring surroundingText (textIndex - 25) textIndex
      in list_ex (\<lambda>pattern. rx_test pattern beforeQuote) directI18nPatterns)"

text \<open>The loop over every occurrence of the quoted text, from \<open>searchStart\<close>.\<close>

function internationalized_loop :: "jsstring \<Rightarrow> jsstring \<Rightarrow> nat \<Rightarrow> bool" where
  "internationalized_loop surroundingText quotedText searchStart =
     (case js_indexOf_from surroundingText quotedText searchStart of
        None \<Rightarrow> False
      | Some textIndex \<Rightarrow>
          if direct_test surroundingText textIndex then True
          else if searchStart \<le> textIndex \<and> textIndex < length surroundingText
          then internationalized_loop surroundingText quotedText (textIndex + 1)
          else False)"
  by pat_completeness auto
termination
  by (relation "measure (\<lambda>(s, q, start). length s - start)") auto

text \<open>The third argument is the offset in the surrounding text, -1 when the caller passes
  none.\<close>

definition isAlreadyInternationalized :: "jsstring \<Rightarrow> jsstring \<Rightarrow> int \<Rightarrow> bool" where
  "isAlreadyInternationalized text surroundingText offsetInSurrounding =
     (if list_ex (\<lambda>pattern. rx_test pattern text) i18nPatterns then True
      else if surroundingText \<noteq> []
      then (let quotedText = sq @ text @ sq
            in if offsetInSurrounding \<ge> 0
               then direct_test surroundingText (nat offsetInSurrounding)
               else internationalized_loop surroundingText quotedText 0)
      else False)"

section \<open>Term Extractor\<close>

datatype term_type = DoubleQuote | I18nField | SingleQuote | Template | TagContent | ButtonText

datatype extract_context = TemplateContext | ScriptContext

text \<open>A candidate term. \<open>tagName\<close> and \<open>attrs\<close> are set for a \<open>button-text\<close> term only and
  are read for no other.\<close>

record candidate =
  original :: jsstring
  content :: jsstring
  ttype :: term_type
  tagName :: jsstring
  attrs :: jsstring

definition mk_term :: "jsstring \<Rightarrow> jsstring \<Rightarrow> term_type \<Rightarrow> candidate" where
  "mk_term orig cont ty =
     \<lparr>original = orig, content = cont, ttype = ty, tagName = [], attrs = []\<rparr>"

text \<open>The text from \<open>Math.max(0, match.index - w)\<close> to
  \<open>Math.min(text.length, match.index + match[0].length + w)\<close>.\<close>

definition surrounding :: "jsstring \<Rightarrow> rx_match \<Rightarrow> nat \<Rightarrow> jsstring" where
  "surrounding text m w =
     (let startPos = m_index m - w;
          endPos = min (length text) (m_index m + length (m_text m) + w)
      in js_substring text startPos endPos)"

text \<open>The scanners: \<^verbatim>\<open>/"([^"]*)"/g\<close>, \<^verbatim>\<open>/i18n:\s*'([^']+)'/g\<close>, \<^verbatim>\<open>/'([^']*)'/g\<close>,
  \<^verbatim>\<open>/`([^`]*)`/g\<close>, \<^verbatim>\<open>/>([^<>]*?)</gs\<close> and
  \<^verbatim>\<open>/<(el-button|el-radio-button|button|a)([^>]*)>([\s\S]*?)<\/(el-button|el-radio-button|button|a)>/g\<close>.\<close>

definition doubleQuoteRegex :: rx where
  "doubleQuoteRegex = rx_seqs [rx_lit dq, rx_group (rx_star (\<lambda>c. c \<noteq> 34)), rx_lit dq]"

definition i18nFieldRegex :: rx where
  "i18nFieldRegex =
     rx_seqs [rx_lit (asc ''i18n:''), rx_star is_space, rx_lit sq,
       rx_group (rx_plus (\<lambda>c. c \<noteq> 39)), rx_lit sq]"

definition singleQuoteRegex :: rx where
  "singleQuoteRegex = rx_seqs [rx_lit sq, rx_group (rx_star (\<lambda>c. c \<noteq> 39)), rx_lit sq]"

definition templateRegex :: rx where
  "templateRegex = rx_seqs [rx_lit bq, rx_group (rx_star (\<lambda>c. c \<noteq> 96)), rx_lit bq]"

definition tagContentRegex :: rx where
  "tagContentRegex =
     rx_seqs [rx_lit (asc ''>''), rx_group (rx_star_lazy (\<lambda>c. c \<noteq> 60 \<and> c \<noteq> 62)),
       rx_lit (asc ''<'')]"

definition buttonTags :: "jsstring list" where
  "buttonTags = map asc [''el-button'', ''el-radio-button'', ''button'', ''a'']"

definition buttonTextRegex :: rx where
  "buttonTextRegex =
     rx_seqs [rx_lit (asc ''<''), rx_group (rx_alts buttonTags),
       rx_group (rx_star (\<lambda>c. c \<noteq> 62)), rx_lit (asc ''>''),
       rx_group (rx_star_lazy (\<lambda>c. True)), rx_lit (asc ''</''),
       rx_group (rx_alts buttonTags), rx_lit (asc ''>'')]"

text \<open>The loops of \<open>extractChineseTerms\<close>, one per scanner, over the matches in order; each
  takes the terms pushed so far and returns them with its own.\<close>

fun doubleQuote_loop ::
  "jsstring \<Rightarrow> extract_context \<Rightarrow> candidate list \<Rightarrow> rx_match list \<Rightarrow> candidate list" where
  "doubleQuote_loop text ctx terms [] = terms"
| "doubleQuote_loop text ctx terms (m # ms) =
     (let cont = js_trim (rx_cap (m_caps m) 0)
      in if js_startsWith cont sq \<and> js_endsWith cont sq
         then doubleQuote_loop text ctx terms ms
         else if containsJSExpression cont
         then doubleQuote_loop text ctx terms ms
         else if ctx = ScriptContext \<and> isInDefineProps text (m_index m)
         then doubleQuote_loop text ctx terms ms
         else (let surroundingText = surrounding text m 100
               in if cont \<noteq> [] \<and> has_chinese cont \<and> \<not> isCodeLike cont \<and> \<not> isFilePath cont
                     \<and> \<not> isAlreadyInternationalized cont surroundingText (- 1)
                  then doubleQuote_loop text ctx (terms @ [mk_term (m_text m) cont DoubleQuote]) ms
                  else doubleQuote_loop text ctx terms ms))"

fun i18nField_loop ::
  "jsstring \<Rightarrow> extract_context \<Rightarrow> candidate list \<Rightarrow> rx_match list \<Rightarrow> candidate list" where
  "i18nField_loop text ctx terms [] = terms"
| "i18nField_loop text ctx terms (m # ms) =
     (let cont = js_trim (rx_cap (m_caps m) 0)
      in if ctx = ScriptContext \<and> isInDefineProps text (m_index m)
         then i18nField_loop text ctx terms ms
         else if cont \<noteq> [] \<and> has_chinese cont \<and> \<not> isCodeLike cont \<and> \<not> isFilePath cont
         then i18nField_loop text ctx (terms @ [mk_term (m_text m) cont I18nField]) ms
         else i18nField_loop text ctx terms ms)"

fun singleQuote_loop ::
  "jsstring \<Rightarrow> extract_context \<Rightarrow> candidate list \<Rightarrow> rx_match list \<Rightarrow> candidate list" where
  "singleQuote_loop text ctx terms [] = terms"
| "singleQuote_loop text ctx terms (m # ms) =
     (let cont = js_trim (rx_cap (m_caps m) 0);
          alreadyExtracted = list_ex (\<lambda>t. content t = cont \<and> ttype t = I18nField) terms
      in if alreadyExtracted
         then singleQuote_loop text ctx terms ms
         else if js_startsWith cont dq \<and> js_endsWith cont dq
         then singleQuote_loop text ctx terms ms
         else if ctx = ScriptContext \<and> isInDefineProps text (m_index m)
         then singleQuote_loop text ctx terms ms
         else (let startPos = m_index m - 100;
                   surroundingText = surrounding text m 100;
                   offsetInSurrounding = int (m_index m) - int startPos
               in if cont \<noteq> [] \<and> has_chinese cont \<and> \<not> isCodeLike cont \<and> \<not> isFilePath cont
                     \<and> \<not> isAlreadyInternationalized cont surroundingText offsetInSurrounding
                  then singleQuote_loop text ctx (terms @ [mk_term (m_text m) cont SingleQuote]) ms
                  else singleQuote_loop text ctx terms ms))"

fun template_loop ::
  "jsstring \<Rightarrow> extract_context \<Rightarrow> candidate list \<Rightarrow> rx_match list \<Rightarrow> candidate list" where
  "template_loop text ctx terms [] = terms"
| "template_loop text ctx terms (m # ms) =
     (let cont = js_trim (rx_cap (m_caps m) 0)
      in if ctx = ScriptContext \<and> isInDefineProps text (m_index m)
         then template_loop text ctx terms ms
         else (let surroundingText = surrounding text m 50
               in if cont \<noteq> [] \<and> has_chinese cont \<and> \<not> isFilePath cont
                     \<and> \<not> isAlreadyInternationalized (m_text m) surroundingText (- 1)
                  then template_loop text ctx (terms @ [mk_term (m_text m) cont Template]) ms
                  else template_loop text ctx terms ms))"

fun tagContent_loop :: "jsstring \<Rightarrow> candidate list \<Rightarrow> rx_match list \<Rightarrow> candidate list" where
  "tagContent_loop text terms [] = terms"
| "tagContent_loop text terms (m # ms) =
     (let cont = js_trim (rx_cap (m_caps m) 0)
      in if cont \<noteq> [] \<and> has_chinese cont \<and> \<not> js_includes cont dq \<and> \<not> js_includes cont sq
            \<and> \<not> js_includes cont (asc ''{{'') \<and> \<not> js_includes cont (asc ''}}'')
            \<and> \<not> isCodeLike cont \<and> \<not> isFilePath cont
         then (let surroundingText = surrounding text m 50
               in if \<not> isAlreadyInternationalized (m_text m) surroundingText (- 1)
                  then tagContent_loop text
                         (terms @ [mk_term (asc ''>'' @ rx_cap (m_caps m) 0 @ asc ''<'') cont
                                     TagContent]) ms
                  else tagContent_loop text terms ms)
         else tagContent_loop text terms ms)"

fun buttonText_loop :: "jsstring \<Rightarrow> candidate list \<Rightarrow> rx_match list \<Rightarrow> candidate list" where
  "buttonText_loop text terms [] = terms"
| "buttonText_loop text terms (m # ms) =
     (let cont = js_trim (rx_cap (m_caps m) 2)
      in if cont \<noteq> [] \<and> has_chinese cont
            \<and> \<not> js_includes cont (asc ''{{'') \<and> \<not> js_includes cont (asc ''}}'')
            \<and> \<not> isCodeLike cont \<and> \<not> isFilePath cont
         then (let surroundingText = surrounding text m 50
               in if \<not> isAlreadyInternationalized (m_text m) surroundingText (- 1)
                  then buttonText_loop text
                         (terms @ [\<lparr>original = m_text m, content = cont, ttype = ButtonText,
                                    tagName = rx_cap (m_caps m) 0,
                                    attrs = rx_cap (m_caps m) 1\<rparr>]) ms
                  else buttonText_loop text terms ms)
         else buttonText_loop text terms ms)"

definition extractChineseTerms :: "jsstring \<Rightarrow> extract_context \<Rightarrow> candidate list" where
  "extractChineseTerms text ctx =
     (let terms = [];
          terms = doubleQuote_loop text ctx terms (rx_matches doubleQuoteRegex None text 0);
          terms = i18nField_loop text ctx terms (rx_matches i18nFieldRegex None text 0);
          terms = singleQuote_loop text ctx terms (rx_matches singleQuoteRegex None text 0);
          terms = template_loop text ctx terms (rx_matches templateRegex None text 0)
      in if ctx = TemplateContext
         then (let terms = tagContent_loop text terms (rx_matches tagContentRegex None text 0);
                   terms = buttonText_loop text terms (rx_matches buttonTextRegex None text 0)
               in terms)
         else terms)"

section \<open>Rewrite Engine\<close>

text \<open>The result of \<open>checkIfInAttribute\<close>; \<open>needsBinding\<close> and \<open>attrName\<close> are read only when
  \<open>isAttribute\<close> holds.\<close>

record attr_check =
  isAttribute :: bool
  needsBinding :: bool
  attrName :: jsstring

text \<open>
  \<open>checkIfInAttribute\<close> builds two expressions around the escaped original:
  \<^verbatim>\<open>([\w-]+)\s*=\s*ORIGINAL\<close> and, with the quotes removed from the original,
  \<^verbatim>\<open>:([\w-]+)\s*=\s*["'][^"']*ORIGINAL[^"']*["']\<close>. The first is tried first.
\<close>

definition basicAttrRegex :: "jsstring \<Rightarrow> rx" where
  "basicAttrRegex orig =
     rx_seqs [rx_group (rx_plus is_attr_char), rx_star is_space, rx_lit (asc ''=''),
       rx_star is_space, rx_lit orig]"

definition vueAttrRegex :: "jsstring \<Rightarrow> rx" where
  "vueAttrRegex orig =
     rx_seqs [rx_lit (asc '':''), rx_group (rx_plus is_attr_char), rx_star is_space,
       rx_lit (asc ''=''), rx_star is_space, rx_cls is_quote, rx_star (\<lambda>c. \<not> is_quote c),
       rx_lit (filter (\<lambda>c. \<not> is_quote c) orig), rx_star (\<lambda>c. \<not> is_quote c),
       rx_cls is_quote]"

definition checkIfInAttribute :: "jsstring \<Rightarrow> jsstring \<Rightarrow> attr_check" where
  "checkIfInAttribute templateContent orig =
     (case rx_exec (basicAttrRegex orig) None templateContent 0 of
        Some basicMatch \<Rightarrow>
          \<lparr>isAttribute = True, needsBinding = True, attrName = rx_cap (m_caps basicMatch) 0\<rparr>
      | None \<Rightarrow>
          (case rx_exec (vueAttrRegex orig) None templateContent 0 of
             Some vueMatch \<Rightarrow>
               \<lparr>isAttribute = True, needsBinding = False,
                attrName = rx_cap (m_caps vueMatch) 0\<rparr>
           | None \<Rightarrow> \<lparr>isAttribute = False, needsBinding = False, attrName = []\<rparr>))"

text \<open>An index as returned by \<open>indexOf\<close> and \<open>lastIndexOf\<close>, -1 when absent.\<close>

definition index_int :: "nat option \<Rightarrow> int" where
  "index_int i = (case i of None \<Rightarrow> - 1 | Some k \<Rightarrow> int k)"

definition isInVueInterpolation :: "jsstring \<Rightarrow> nat \<Rightarrow> bool" where
  "isInVueInterpolation templateContent textIndex =
     (let beforeText = js_substring templateContent 0 textIndex;
          lastOpenBrace = js_lastIndexOf beforeText (asc ''{{'');
          lastCloseBrace = js_lastIndexOf beforeText (asc ''}}'')
      in case lastOpenBrace of
           None \<Rightarrow> False
         | Some openBrace \<Rightarrow>
             if int openBrace > index_int lastCloseBrace
             then (let afterOpen = js_substring templateContent (openBrace + 2) textIndex
                   in \<not> js_includes afterOpen (asc ''}}''))
             else False)"

text \<open>\<open>isInVueBindingExpression\<close>: the last match of
  \<^verbatim>\<open>/(?:^|[>\s])(:|@|v-)[\w-]+\s*=\s*["']/g\<close> before the position, then the count of the
  closed pairs of the opening quote between it and the position.\<close>

definition is_gt_or_space :: "jschar \<Rightarrow> bool" where
  "is_gt_or_space c \<longleftrightarrow> c = 62 \<or> is_space c"

definition vueBindingRegex :: rx where
  "vueBindingRegex =
     rx_seqs [rx_alt rx_bol (rx_cls is_gt_or_space),
       rx_group (rx_alts [asc '':'', asc ''@'', asc ''v-'']), rx_plus is_attr_char,
       rx_star is_space, rx_lit (asc ''=''), rx_star is_space, rx_cls is_quote]"

fun binding_loop ::
  "jsstring \<Rightarrow> jschar option \<Rightarrow> nat \<Rightarrow> bool \<Rightarrow> bool \<Rightarrow> jschar \<Rightarrow> bool" where
  "binding_loop [] prevChar quoteCount inSingleQuote inDoubleQuote openingQuote =
     (quoteCount = 0)"
| "binding_loop (char # rest) prevChar quoteCount inSingleQuote inDoubleQuote openingQuote =
     (if prevChar = Some 92
      then binding_loop rest (Some char) quoteCount inSingleQuote inDoubleQuote openingQuote
      else if char = 34 \<and> \<not> inSingleQuote
      then (let inDoubleQuote' = (\<not> inDoubleQuote);
                quoteCount' = (if \<not> inDoubleQuote' \<and> openingQuote = 34
                               then quoteCount + 1 else quoteCount)
            in binding_loop rest (Some char) quoteCount' inSingleQuote inDoubleQuote'
                 openingQuote)
      else if char = 39 \<and> \<not> inDoubleQuote
      then (let inSingleQuote' = (\<not> inSingleQuote);
                quoteCount' = (if \<not> inSingleQuote' \<and> openingQuote = 39
                               then quoteCount + 1 else quoteCount)
            in binding_loop rest (Some char) quoteCount' inSingleQuote' inDoubleQuote
                 openingQuote)
      else binding_loop rest (Some char) quoteCount inSingleQuote inDoubleQuote openingQuote)"

definition isInVueBindingExpression :: "jsstring \<Rightarrow> nat \<Rightarrow> bool" where
  "isInVueBindingExpression templateContent textIndex =
     (let beforeText = js_substring templateContent 0 textIndex
      in case rx_matches vueBindingRegex None beforeText 0 of
           [] \<Rightarrow> False
         | m # ms \<Rightarrow>
             (let lastBindingMatch = last (m # ms);
                  attrStartIndex =
                    m_index lastBindingMatch + length (m_text lastBindingMatch) - 1;
                  openingQuote = beforeText ! attrStartIndex;
                  betweenText = js_substring templateContent (attrStartIndex + 1) textIndex
              in if \<not> js_includes betweenText [openingQuote] then True
                 else binding_loop betweenText None 0 False False openingQuote))"

text \<open>
  The replacement text of \<open>String.prototype.replace\<close> is a template: \<^verbatim>\<open>$$\<close> stands for a
  dollar sign, \<^verbatim>\<open>$&\<close> for the match, \<^verbatim>\<open>$`\<close> for the text before it and \<^verbatim>\<open>$'\<close> for the
  text after it; the expressions replaced here have no capture group, so a dollar sign
  before a digit stands for itself.
\<close>

fun expand_replacement :: "jsstring \<Rightarrow> jsstring \<Rightarrow> jsstring \<Rightarrow> jsstring \<Rightarrow> jsstring" where
  "expand_replacement [] matched preceding following = []"
| "expand_replacement [c] matched preceding following = [c]"
| "expand_replacement (c # d # rest) matched preceding following =
     (if c = 36 \<and> d = 36 then 36 # expand_replacement rest matched preceding following
      else if c = 36 \<and> d = 38 then matched @ expand_replacement rest matched preceding following
      else if c = 36 \<and> d = 96 then preceding @ expand_replacement rest matched preceding following
      else if c = 36 \<and> d = 39 then following @ expand_replacement rest matched preceding following
      else c # expand_replacement (d # rest) matched preceding following)"

text \<open>\<open>text.replace(new RegExp(escapeRegExp(original), 'g'), replacement)\<close>: the text between
  the matches is kept and each match is replaced by the expanded replacement.\<close>

fun replace_matches :: "jsstring \<Rightarrow> jsstring \<Rightarrow> nat \<Rightarrow> rx_match list \<Rightarrow> jsstring" where
  "replace_matches s rep pos [] = js_substring_from s pos"
| "replace_matches s rep pos (m # ms) =
     js_substring s pos (m_index m)
       @ expand_replacement rep (m_text m) (js_substring s 0 (m_index m)) (m_rest m)
       @ replace_matches s rep (m_index m + length (m_text m)) ms"

definition replace_all_literal :: "jsstring \<Rightarrow> jsstring \<Rightarrow> jsstring \<Rightarrow> jsstring" where
  "replace_all_literal s orig rep = replace_matches s rep 0 (rx_matches (rx_lit orig) None s 0)"

text \<open>\<^verbatim>\<open>/\$\{.*?\}/\<close>, \<^verbatim>\<open>/(?:^|[>\s])([\w-]+)\s*=\s*$/\<close> and \<^verbatim>\<open>/(?:^|[>\s])(?::|v-)[\w-]+\s*=\s*$/\<close>.\<close>

definition hasTemplateRegex :: rx where
  "hasTemplateRegex = rx_seqs [rx_lit (asc ''${''), rx_star_lazy is_dot, rx_lit (asc ''}'')]"

definition plainAttrBeforeRegex :: rx where
  "plainAttrBeforeRegex =
     rx_seqs [rx_alt rx_bol (rx_cls is_gt_or_space), rx_group (rx_plus is_attr_char),
       rx_star is_space, rx_lit (asc ''=''), rx_star is_space, rx_eol]"

definition vueBindingBeforeRegex :: rx where
  "vueBindingBeforeRegex =
     rx_seqs [rx_alt rx_bol (rx_cls is_gt_or_space), rx_alts [asc '':'', asc ''v-''],
       rx_plus is_attr_char, rx_star is_space, rx_lit (asc ''=''), rx_star is_space, rx_eol]"

text \<open>The call \<open>method('key')\<close>.\<close>

definition i18n_call :: "jsstring \<Rightarrow> jsstring \<Rightarrow> jsstring" where
  "i18n_call templateMethod key = templateMethod @ asc ''('' @ sq @ key @ sq @ asc '')''"

text \<open>
  One step of the loop over the occurrences of a quoted literal, from the last to the
  first: the occurrence at \<open>index\<close> is replaced according to the text before it
  (\<open>before\<close> and \<open>after\<close> in the source).
\<close>

definition replace_occurrence ::
  "jsstring \<Rightarrow> jsstring \<Rightarrow> jsstring \<Rightarrow> rx_match \<Rightarrow> jsstring" where
  "replace_occurrence templateMethod key newTemplateContent occ =
     (let index = m_index occ;
          orig = m_text occ;
          beforeOcc = js_substring newTemplateContent 0 index;
          afterOcc = js_substring_from newTemplateContent (index + length orig);
          attrMatch = rx_exec plainAttrBeforeRegex None beforeOcc 0;
          vueBindingMatch = rx_exec vueBindingBeforeRegex None beforeOcc 0
      in case (attrMatch, vueBindingMatch) of
           (Some am, None) \<Rightarrow>
             (let name = rx_cap (m_caps am) 0;
                  beforeAttr = js_substring beforeOcc 0 (length beforeOcc - length (m_text am));
                  leadingSpace =
                    (if rx_test (rx_seqs [rx_bol, rx_cls is_gt_or_space]) (m_text am)
                        \<and> hd (m_text am) \<noteq> 62
                     then [hd (m_text am)] else asc '' '')
              in beforeAttr @ leadingSpace @ asc '':'' @ name @ asc ''='' @ dq
                   @ i18n_call templateMethod key @ dq @ afterOcc)
         | _ \<Rightarrow>
             if isInVueInterpolation (beforeOcc @ orig) (length beforeOcc + length orig - 1)
             then beforeOcc @ i18n_call templateMethod key @ afterOcc
             else if isInVueBindingExpression (beforeOcc @ orig) (length beforeOcc + length orig - 1)
             then beforeOcc @ i18n_call templateMethod key @ afterOcc
             else beforeOcc @ asc ''{{ '' @ i18n_call templateMethod key @ asc '' }}'' @ afterOcc)"

text \<open>The state of the loop over the terms of a template: the set of the originals already
  handled, the template text as rewritten so far, the Key Registry and the count.\<close>

record rewrite_state =
  processedOriginals :: "jsstring set"
  newTemplateContent :: jsstring
  globalI18nMap :: registry
  extractedCount :: nat

definition rewrite_templated ::
  "jsstring \<Rightarrow> rewrite_state \<Rightarrow> candidate \<Rightarrow> rewrite_state" where
  "rewrite_templated templateMethod st t =
     (let (converted, map1) =
            convertTemplateToI18n (globalI18nMap st) (content t) templateMethod;
          key = cr_replacedText converted;
          map2 = register map1 key (cr_replacedText converted);
          tpl = newTemplateContent st;
          tpl' =
            (if ttype t = ButtonText
             then (let newContent =
                         asc ''<'' @ tagName t @ attrs t @ asc ''>{{ '' @ cr_converted converted
                           @ asc '' }}</'' @ tagName t @ asc ''>''
                   in replaceFirst tpl (original t) newContent)
             else (let isInAttribute = checkIfInAttribute tpl (original t)
                   in if isAttribute isInAttribute
                      then (if needsBinding isInAttribute
                            then replaceFirst tpl
                                   (attrName isInAttribute @ asc ''='' @ original t)
                                   (asc '' :'' @ attrName isInAttribute @ asc ''='' @ dq
                                      @ cr_converted converted @ dq)
                            else replaceFirst tpl (original t) (cr_converted converted))
                      else (case js_indexOf tpl (original t) of
                              Some textIndex \<Rightarrow>
                                if isInVueInterpolation tpl textIndex
                                then replaceFirst tpl (original t) (cr_converted converted)
                                else replaceFirst tpl (original t)
                                       (asc ''{{ '' @ cr_converted converted @ asc '' }}'')
                            | None \<Rightarrow>
                                replaceFirst tpl (original t)
                                  (asc ''{{ '' @ cr_converted converted @ asc '' }}''))))
      in st\<lparr>newTemplateContent := tpl', globalI18nMap := map2\<rparr>)"

definition rewrite_plain ::
  "jsstring \<Rightarrow> rewrite_state \<Rightarrow> candidate \<Rightarrow> rewrite_state" where
  "rewrite_plain templateMethod st t =
     (let key = generateI18nKey (content t);
          map1 = register (globalI18nMap st) key (content t);
          tpl = newTemplateContent st;
          tpl' =
            (if ttype t = TagContent
             then replace_all_literal tpl (original t)
                    (asc ''>{{ '' @ i18n_call templateMethod key @ asc '' }}<'')
             else if ttype t = ButtonText
             then (let newContent =
                         asc ''<'' @ tagName t @ attrs t @ asc ''>{{ ''
                           @ i18n_call templateMethod key @ asc '' }}</'' @ tagName t @ asc ''>''
                   in replace_all_literal tpl (original t) newContent)
             else if ttype t = DoubleQuote \<or> ttype t = SingleQuote
             then (let replacements = rx_matches (rx_lit (original t)) None tpl 0
                   in foldl (replace_occurrence templateMethod key) tpl (rev replacements))
             else replaceFirst tpl (original t)
                    (asc ''{{ '' @ i18n_call templateMethod key @ asc '' }}''))
      in st\<lparr>newTemplateContent := tpl', globalI18nMap := map1\<rparr>)"

text \<open>The body of \<open>for (const term of terms)\<close>.\<close>

definition rewrite_term :: "jsstring \<Rightarrow> rewrite_state \<Rightarrow> candidate \<Rightarrow> rewrite_state" where
  "rewrite_term templateMethod st t =
     (if original t \<in> processedOriginals st then st
      else (let st1 = st\<lparr>processedOriginals := insert (original t) (processedOriginals st)\<rparr>
            in case js_indexOf (newTemplateContent st1) (original t) of
                 None \<Rightarrow> st1
               | Some textIndex \<Rightarrow>
                   (let hasTemplate = rx_test hasTemplateRegex (content t);
                        st2 = (if hasTemplate then rewrite_templated templateMethod st1 t
                               else rewrite_plain templateMethod st1 t)
                    in st2\<lparr>extractedCount := extractedCount st2 + 1\<rparr>)))"

text \<open>
  The template branch of \<open>processVueFile\<close>, from the content of the template element to
  the rewritten content: the terms are extracted from the text without comments and the
  original text is rewritten. \<open>templateMethod\<close> is \<open>userConfig.vue.i18nMethod.template\<close>.
\<close>

definition processVueTemplate ::
  "jsstring \<Rightarrow> registry \<Rightarrow> jsstring \<Rightarrow> rewrite_state" where
  "processVueTemplate templateMethod registry0 templateContent =
     (let cleanTemplate = removeComments templateContent;
          terms = extractChineseTerms cleanTemplate TemplateContext
      in foldl (rewrite_term templateMethod)
           \<lparr>processedOriginals = {}, newTemplateContent = templateContent,
            globalI18nMap = registry0, extractedCount = 0\<rparr> terms)"

section \<open>Notions used to state the properties\<close>

text \<open>A matcher spans texts with the property \<open>Q\<close> when every state it returns is reached by
  consuming, from the remaining input, a text with that property.\<close>

definition rx_spans :: "(jsstring \<Rightarrow> bool) \<Rightarrow> rx \<Rightarrow> bool" where
  "rx_spans Q r \<longleftrightarrow>
     (\<forall>prev s caps prev' s' caps'. (prev', s', caps') \<in> set (r (prev, s, caps))
        \<longrightarrow> (\<exists>u. s = u @ s' \<and> Q u))"









section \<open>Evaluation\<close>

text \<open>The defining equations that the simplifier unfolds to run the model on a concrete
  input.\<close>

lemmas js_eval = asc_def sq_def dq_def bq_def
  js_substring_def js_substring_from_def js_trim_def js_includes_def js_startsWith_def
  js_endsWith_def js_indexOf_from_def replaceFirst_def
  is_word_def is_space_def is_line_terminator_def is_dot_def is_chinese_def is_quote_def
  is_label_char_def is_attr_char_def is_gt_or_space_def to_lower_def
  rx_matches.simps rx_replace_all.simps
  rx_seq_def rx_plus_def rx_alt_def rx_opt_def rx_rep_def rx_cap_def rx_test_def
  rx_call_def rx_at_end_def has_chinese_def
  lineCommentRegex_def blockCommentRegex_def htmlCommentRegex_def hashCommentRegex_def
  removeComments_def jsPatterns_def containsJSExpression_def codeKeywords_def
  codePatterns_def labelRegex_def callRegex_def isCodeLike_def fileExtensions_def
  filePathPatterns_def isFilePath_def isInDefineProps_def i18nPatterns_def
  directI18nPatterns_def direct_test_def isAlreadyInternationalized_def
  variableRegex_def template_variables_def convert_step_def convertTemplateToI18n_def
  fromCharCode_def obj_entries_def is_array_index_def digits_value_def
  register_def proto_key_def generateI18nKey_def
  mk_term_def surrounding_def doubleQuoteRegex_def i18nFieldRegex_def singleQuoteRegex_def
  templateRegex_def tagContentRegex_def buttonTags_def buttonTextRegex_def
  extractChineseTerms_def
  basicAttrRegex_def vueAttrRegex_def checkIfInAttribute_def index_int_def
  isInVueInterpolation_def vueBindingRegex_def isInVueBindingExpression_def
  replace_all_literal_def hasTemplateRegex_def plainAttrBeforeRegex_def
  vueBindingBeforeRegex_def i18n_call_def replace_occurrence_def rewrite_templated_def
  rewrite_plain_def rewrite_term_def processVueTemplate_def Let_def

section \<open>Properties of replaceFirst\<close>

lemma js_indexOf_None: "js_indexOf tx q = None \<longleftrightarrow> (\<forall>p s. tx \<noteq> p @ q @ s)"
proof (induction tx)
  case Nil
  then show ?case by auto
next
  case (Cons c r)
  show ?case
  proof (cases "prefix q (c # r)")
    case True
    then obtain s where "c # r = q @ s" by (auto simp: prefix_def)
    then have "c # r = [] @ q @ s" by simp
    with True show ?thesis by (metis js_indexOf.simps(2) option.distinct(1))
  next
    case False
    have "(\<forall>p s. c # r \<noteq> p @ q @ s) \<longleftrightarrow> (\<forall>p s. r \<noteq> p @ q @ s)"
    proof
      assume h: "\<forall>p s. c # r \<noteq> p @ q @ s"
      show "\<forall>p s. r \<noteq> p @ q @ s"
      proof (intro allI notI)
        fix p s assume "r = p @ q @ s"
        then have "c # r = (c # p) @ q @ s" by simp
        with h show False by blast
      qed
    next
      assume h: "\<forall>p s. r \<noteq> p @ q @ s"
      show "\<forall>p s. c # r \<noteq> p @ q @ s"
      proof (intro allI notI)
        fix p s assume e: "c # r = p @ q @ s"
        show False
        proof (cases p)
          case Nil
          with e have "prefix q (c # r)" by (simp add: prefix_def)
          with False show False by simp
        next
          case (Cons a p')
          with e have "r = p' @ q @ s" by simp
          with h show False by blast
        qed
      qed
    qed
    with False Cons.IH show ?thesis by simp
  qed
qed

lemma js_indexOf_Some:
  "js_indexOf tx q = Some i \<Longrightarrow>
     (\<exists>s. tx = take i tx @ q @ s) \<and> (\<forall>p s. tx = p @ q @ s \<longrightarrow> i \<le> length p)"
proof (induction tx arbitrary: i)
  case Nil
  then show ?case by (auto split: if_splits)
next
  case (Cons c r)
  show ?case
  proof (cases "prefix q (c # r)")
    case True
    with Cons.prems have "i = 0" by simp
    with True show ?thesis by (auto simp: prefix_def)
  next
    case False
    with Cons.prems obtain j where j: "js_indexOf r q = Some j" "i = Suc j" by auto
    from Cons.IH[OF j(1)] obtain s where
      s: "r = take j r @ q @ s" and m: "\<forall>p s. r = p @ q @ s \<longrightarrow> j \<le> length p"
      by blast
    have "c # r = take i (c # r) @ q @ s" using s j(2) by simp
    moreover have "\<forall>p s. c # r = p @ q @ s \<longrightarrow> i \<le> length p"
    proof (intro allI impI)
      fix p s' assume e: "c # r = p @ q @ s'"
      show "i \<le> length p"
      proof (cases p)
        case Nil
        with e have "prefix q (c # r)" by (simp add: prefix_def)
        with False show ?thesis by simp
      next
        case (Cons a p')
        with e have "r = p' @ q @ s'" by simp
        with m have "j \<le> length p'" by blast
        with Cons j(2) show ?thesis by simp
      qed
    qed
    ultimately show ?thesis by blast
  qed
qed

text \<open>
  C10. If \<open>search\<close> does not occur in \<open>text\<close>, \<open>replaceFirst\<close> returns \<open>text\<close>; otherwise, with
  \<open>p\<close> the prefix before the leftmost occurrence and \<open>s\<close> the suffix after it, it returns
  \<open>p @ replacement @ s\<close>: only the first occurrence is replaced and all other characters
  are kept.
\<close>

theorem replaceFirst_first_occurrence:
  "((\<forall>p s. text \<noteq> p @ search @ s) \<longrightarrow> replaceFirst text search replacement = text) \<and>
   (\<forall>p s. text = p @ search @ s \<and> (\<forall>p' s'. text = p' @ search @ s' \<longrightarrow> length p \<le> length p')
      \<longrightarrow> replaceFirst text search replacement = p @ replacement @ s)"
proof (intro conjI allI impI)
  assume "\<forall>p s. text \<noteq> p @ search @ s"
  then have "js_indexOf text search = None" by (simp add: js_indexOf_None)
  then show "replaceFirst text search replacement = text" by (simp add: replaceFirst_def)
next
  fix p s
  assume h: "text = p @ search @ s \<and>
    (\<forall>p' s'. text = p' @ search @ s' \<longrightarrow> length p \<le> length p')"
  then have "js_indexOf text search \<noteq> None" using js_indexOf_None[of "text" search] by blast
  then obtain i where i: "js_indexOf text search = Some i" by blast
  from js_indexOf_Some[OF i] obtain s' where
    s': "text = take i text @ search @ s'" and m: "\<forall>p s. text = p @ search @ s \<longrightarrow> i \<le> length p"
    by blast
  have "i \<le> length p" using m h by blast
  moreover have "length p \<le> length (take i text)" using h s' by blast
  ultimately have il: "i = length p" by simp
  with h have "take i text = p" "drop (i + length search) text = s" by simp_all
  with i show "replaceFirst text search replacement = p @ replacement @ s"
    by (simp add: replaceFirst_def js_substring_def js_substring_from_def)
qed

theorem replaceFirst_first_occurrence_witness:
  "replaceFirst [1, 2, 3, 2, 3 :: nat] [2, 3] [9] = [1, 9, 2, 3] \<and>
   replaceFirst [1, 2, 3 :: nat] [4] [9] = [1, 2, 3]"
proof -
  have a: "[1, 2, 3, 2, 3 :: nat] = [1] @ [2, 3] @ [2, 3] \<and>
    (\<forall>p' s'. [1, 2, 3, 2, 3 :: nat] = p' @ [2, 3] @ s' \<longrightarrow> length [1 :: nat] \<le> length p')"
    by (auto simp: Cons_eq_append_conv)
  have b: "\<forall>p s. [1, 2, 3 :: nat] \<noteq> p @ [4] @ s"
    by (auto simp: Cons_eq_append_conv)
  from replaceFirst_first_occurrence[of "[1, 2, 3, 2, 3]" "[2, 3]" "[9]"] a
  have "replaceFirst [1, 2, 3, 2, 3 :: nat] [2, 3] [9] = [1] @ [9] @ [2, 3]" by blast
  moreover from replaceFirst_first_occurrence[of "[1, 2, 3]" "[4]" "[9]"] b
  have "replaceFirst [1, 2, 3 :: nat] [4] [9] = [1, 2, 3]" by blast
  ultimately show ?thesis by simp
qed

section \<open>Properties of the Key Registry\<close>

lemma register_present: "m key = Some val \<Longrightarrow> register m key val = m"
  by (auto simp: register_def)

lemma register_term_commute:
  "register_term (register_term m a) b = register_term (register_term m b) a"
  by (auto simp: register_term_def register_def generateI18nKey_def fun_upd_twist)

lemma register_terms_step:
  "register_terms (register_term m a) bs = register_term (register_terms m bs) a"
  unfolding register_terms_def
  by (induction bs arbitrary: m) (simp_all add: register_term_commute)

lemma register_terms_commute:
  "register_terms (register_terms m as) bs = register_terms (register_terms m bs) as"
proof (induction as arbitrary: m)
  case Nil
  then show ?case by (simp add: register_terms_def)
next
  case (Cons a as1)
  have "register_terms (register_terms m (a # as1)) bs
      = register_terms (register_terms (register_term m a) as1) bs"
    by (simp add: register_terms_def)
  also have "\<dots> = register_terms (register_terms (register_term m a) bs) as1"
    by (rule Cons.IH)
  also have "\<dots> = register_terms (register_term (register_terms m bs) a) as1"
    by (simp add: register_terms_step)
  also have "\<dots> = register_terms (register_terms m bs) (a # as1)"
    by (simp add: register_terms_def)
  finally show ?case .
qed

text \<open>
  C9. Registering a pair that is already present with the same value leaves the registry
  unchanged, a repeated registration is a no-op, and the registrations of two files
  (each a sequence of term contents, registered under the content itself) give the same
  registry in either order.
\<close>

theorem registry_idempotent_commutative:
  "(m key = Some val \<longrightarrow> register m key val = m) \<and>
   register (register m key val) key val = register m key val \<and>
   register_terms (register_terms m file1) file2 = register_terms (register_terms m file2) file1"
  by (auto simp: register_present register_terms_commute) (simp add: register_def)

theorem registry_idempotent_commutative_witness:
  "register [[1] \<mapsto> [1]] [1] [1] = [[1] \<mapsto> [1 :: nat]] \<and>
   register_terms (register_terms Map.empty [[1], [2]]) [[2], [3]]
     = register_terms (register_terms Map.empty [[2], [3]]) [[1], [2 :: nat]]"
proof -
  have h: "[[1] \<mapsto> [1 :: nat]] [1] = Some [1]" by simp
  from registry_idempotent_commutative[of "[[1] \<mapsto> [1]]" "[1]" "[1]" "[[1], [2]]" "[[2], [3]]"] h
  have "register [[1] \<mapsto> [1]] [1] [1] = [[1] \<mapsto> [1 :: nat]]" by blast
  moreover from registry_idempotent_commutative[of Map.empty "[1]" "[1]" "[[1], [2]]" "[[2], [3]]"]
  have "register_terms (register_terms Map.empty [[1], [2]]) [[2], [3]]
     = register_terms (register_terms Map.empty [[2], [3]]) [[1], [2 :: nat]]" by blast
  ultimately show ?thesis by simp
qed

section \<open>Properties of the Template Interpolation Converter\<close>

text \<open>
  C3. Converting the template term made of the Chinese character for "total", the marker
  \<^verbatim>\<open>${count}\<close> and the three characters for "records" gives the canonical key with
  \<^verbatim>\<open>{a}\<close> in place of the marker, a call whose second argument maps \<open>a\<close> to \<open>count\<close>, and a
  registry holding exactly the entry from the key to itself.
\<close>

theorem convert_count_records:
  "convertTemplateToI18n Map.empty ([20849] @ asc ''${count}'' @ [26465, 35760, 24405]) (asc ''$t'')
     = (\<lparr>cr_key = [20849] @ asc ''{a}'' @ [26465, 35760, 24405],
         cr_converted = asc ''$t('' @ sq @ [20849] @ asc ''{a}'' @ [26465, 35760, 24405] @ sq
                          @ asc '', {a: count})'',
         cr_replacedText = [20849] @ asc ''{a}'' @ [26465, 35760, 24405],
         cr_mapping = [(asc ''a'', asc ''count'')]\<rparr>,
        [[20849] @ asc ''{a}'' @ [26465, 35760, 24405]
           \<mapsto> [20849] @ asc ''{a}'' @ [26465, 35760, 24405]])"
  by (simp add: js_eval)


lemma convert_step_snd:
  "snd (convert_step (tx, m) (v, i)) = obj_set m (fromCharCode (97 + i)) v"
  by (simp add: convert_step_def Let_def)

lemma obj_set_fresh: "k \<notin> fst ` set m \<Longrightarrow> obj_set m k v = m @ [(k, v)]"
  by (induction m) auto

lemma fromCharCode_inj:
  "i < n \<Longrightarrow> n \<le> 65438 \<Longrightarrow> fromCharCode (97 + i) \<noteq> fromCharCode (97 + n)"
  by (simp add: fromCharCode_def)

lemma convert_fold_mapping:
  "length vs \<le> 65439 \<Longrightarrow>
   snd (foldl convert_step (tx, []) (zip vs [0 ..< length vs]))
     = map (\<lambda>i. (fromCharCode (97 + i), vs ! i)) [0 ..< length vs]"
proof (induction vs rule: rev_induct)
  case Nil
  then show ?case by simp
next
  case (snoc v vs)
  define n where "n = length vs"
  obtain tx' m' where f: "foldl convert_step (tx, []) (zip vs [0 ..< n]) = (tx', m')"
    by fastforce
  from snoc f have m': "m' = map (\<lambda>i. (fromCharCode (97 + i), vs ! i)) [0 ..< n]"
    by (simp add: n_def)
  from snoc.prems have n: "n \<le> 65438"
    by (simp add: n_def)
  have "fromCharCode (97 + n) \<notin> fst ` set m'"
  proof
    assume "fromCharCode (97 + n) \<in> fst ` set m'"
    then obtain i where "i < n" "fromCharCode (97 + n) = fromCharCode (97 + i)"
      unfolding m' by (auto simp: image_iff)
    with fromCharCode_inj[OF _ n, of i] show False by simp
  qed
  then have s: "obj_set m' (fromCharCode (97 + n)) v = m' @ [(fromCharCode (97 + n), v)]"
    by (rule obj_set_fresh)
  have "zip (vs @ [v]) [0 ..< length (vs @ [v])] = zip vs [0 ..< n] @ [(v, n)]"
    by (simp add: n_def)
  then have "snd (foldl convert_step (tx, []) (zip (vs @ [v]) [0 ..< length (vs @ [v])]))
      = m' @ [(fromCharCode (97 + n), v)]"
    by (simp add: f convert_step_snd s)
  also have "\<dots> = map (\<lambda>i. (fromCharCode (97 + i), (vs @ [v]) ! i)) [0 ..< length (vs @ [v])]"
    unfolding m' by (simp add: n_def nth_append)
  finally show ?case .
qed

lemma convert_mapping:
  "cr_mapping (fst (convertTemplateToI18n g t p))
     = snd (foldl convert_step (t, []) (zip (template_variables t)
         [0 ..< length (template_variables t)]))"
  by (simp add: convertTemplateToI18n_def Let_def split: prod.splits)

text \<open>
  C5, as stated, fails: the converter has no error path. For a term with the 27 distinct
  markers \<^verbatim>\<open>${A}\<close> to \<^verbatim>\<open>${Z}\<close> and \<^verbatim>\<open>${_}\<close> it returns a result in which the last marker
  has the placeholder name \<^verbatim>\<open>{\<close>, the character after \<open>z\<close>.
\<close>

theorem convert_27_markers_returns:
  "cr_key (fst (convertTemplateToI18n Map.empty
       (asc ''${A}${B}${C}${D}${E}${F}${G}${H}${I}${J}${K}${L}${M}${N}${O}${P}${Q}${R}${S}${T}${U}${V}${W}${X}${Y}${Z}${_}'')
       (asc ''$t'')))
     = asc ''{a}{b}{c}{d}{e}{f}{g}{h}{i}{j}{k}{l}{m}{n}{o}{p}{q}{r}{s}{t}{u}{v}{w}{x}{y}{z}{{}''"
  by (simp add: js_eval)

text \<open>
  C5, amended. The converter returns a result for every term. The marker at position \<open>i\<close>,
  counted from 0, is recorded under the name \<open>String.fromCharCode(97 + i)\<close>, and for a term
  of at most 65439 markers these names are pairwise distinct: the first 26 are the letters
  \<open>a\<close> to \<open>z\<close>, the later ones are the characters that follow \<open>z\<close>.
\<close>

theorem placeholder_names_by_position:
  assumes "length (template_variables t) \<le> 65439"
  shows "cr_mapping (fst (convertTemplateToI18n g t p))
           = map (\<lambda>i. (fromCharCode (97 + i), template_variables t ! i))
               [0 ..< length (template_variables t)]
         \<and> distinct (map fst (cr_mapping (fst (convertTemplateToI18n g t p))))"
proof -
  have m: "cr_mapping (fst (convertTemplateToI18n g t p))
           = map (\<lambda>i. (fromCharCode (97 + i), template_variables t ! i))
               [0 ..< length (template_variables t)]"
    unfolding convert_mapping using assms by (rule convert_fold_mapping)
  have "inj_on (\<lambda>i. fromCharCode (97 + i)) {0 ..< length (template_variables t)}"
    using assms by (auto simp: inj_on_def fromCharCode_def)
  then have "distinct (map (\<lambda>i. fromCharCode (97 + i)) [0 ..< length (template_variables t)])"
    by (simp add: distinct_map)
  then show ?thesis
    unfolding m by (simp add: comp_def)
qed

theorem placeholder_names_by_position_witness:
  "length (template_variables (asc ''${x}-${y}'')) \<le> 65439
   \<and> cr_mapping (fst (convertTemplateToI18n Map.empty (asc ''${x}-${y}'') (asc ''$t'')))
       = [(asc ''a'', asc ''x''), (asc ''b'', asc ''y'')]
   \<and> distinct (map fst (cr_mapping
         (fst (convertTemplateToI18n Map.empty (asc ''${x}-${y}'') (asc ''$t'')))))"
proof -
  have v: "template_variables (asc ''${x}-${y}'') = [asc ''x'', asc ''y'']"
    by (simp add: js_eval)
  have l: "length (template_variables (asc ''${x}-${y}'')) \<le> 65439"
    unfolding v by simp
  from placeholder_names_by_position[OF l, of Map.empty "asc ''$t''"] l
  show ?thesis
    unfolding v by (simp add: fromCharCode_def asc_def)
qed
section \<open>Properties of the Text Normalizer\<close>

lemma rx_spansD:
  assumes "rx_spans Q r" and "(prev', s', caps') \<in> set (r (prev, s, caps))"
  shows "\<exists>u. s = u @ s' \<and> Q u"
  using assms(1)[unfolded rx_spans_def, rule_format, OF assms(2)] .

lemma rx_spans_lit: "Q l \<Longrightarrow> rx_spans Q (rx_lit l)"
  by (auto simp: rx_spans_def prefix_def split: if_splits)






lemma rx_exec_spans:
  assumes "rx_spans Q r" and "rx_exec r prev s idx = Some m"
  shows "\<exists>pre. s = pre @ m_text m @ m_rest m \<and> m_index m = idx + length pre \<and> Q (m_text m)"
  using assms(2)
proof (induction s arbitrary: prev idx)
  case Nil
  show ?case
  proof (cases "r (prev, [], [])")
    case Nil
    with \<open>rx_exec r prev [] idx = Some m\<close> show ?thesis by simp
  next
    case (Cons st sts)
    obtain p' s' caps where st: "st = (p', s', caps)" by (cases st) auto
    with Cons \<open>rx_exec r prev [] idx = Some m\<close>
    have m: "m = \<lparr>m_index = idx, m_text = [], m_caps = caps, m_rest = s'\<rparr>"
      by simp
    from Cons st have "(p', s', caps) \<in> set (r (prev, [], []))" by simp
    from rx_spansD[OF assms(1) this] obtain u where "[] = u @ s'" "Q u" by auto
    with m show ?thesis by simp
  qed
next
  case (Cons c s)
  show ?case
  proof (cases "r (prev, c # s, [])")
    case Nil
    with Cons.prems have "rx_exec r (Some c) s (Suc idx) = Some m" by simp
    from Cons.IH[OF this] obtain pre where
      "s = pre @ m_text m @ m_rest m" "m_index m = Suc idx + length pre" "Q (m_text m)"
      by blast
    then have "c # s = (c # pre) @ m_text m @ m_rest m \<and> m_index m = idx + length (c # pre)
        \<and> Q (m_text m)"
      by simp
    then show ?thesis by blast
  next
    case (Cons st sts)
    obtain p' s' caps where st: "st = (p', s', caps)" by (cases st) auto
    with Cons Cons.prems have m: "m = \<lparr>m_index = idx,
        m_text = take (length (c # s) - length s') (c # s), m_caps = caps, m_rest = s'\<rparr>"
      by simp
    from Cons st have "(p', s', caps) \<in> set (r (prev, c # s, []))" by simp
    from rx_spansD[OF assms(1) this] obtain u where u: "c # s = u @ s'" "Q u" by auto
    then have "take (length (c # s) - length s') (c # s) = u" by simp
    with m u have "c # s = [] @ m_text m @ m_rest m \<and> m_index m = idx + length ([] :: jsstring)
        \<and> Q (m_text m)"
      by simp
    then show ?thesis by blast
  qed
qed















lemma rx_exec_Suc:
  "rx_exec r prev s (Suc idx) = map_option (m_index_update Suc) (rx_exec r prev s idx)"
proof (induction s arbitrary: prev idx)
  case Nil
  show ?case by (simp split: list.splits)
next
  case (Cons c s)
  show ?case
  proof (cases "r (prev, c # s, [])")
    case Nil
    then show ?thesis by (simp add: Cons.IH)
  next
    case (Cons st sts)
    then show ?thesis by (cases st) simp
  qed
qed

text \<open>A search that fails at the first character goes on behind it.\<close>

lemma rx_replace_all_skip:
  assumes sp: "rx_spans (\<lambda>u. True) r" and no: "r (prev, c # s, []) = []"
  shows "rx_replace_all r rep prev (c # s) = c # rx_replace_all r rep (Some c) s"
proof -
  have x: "rx_exec r prev (c # s) 0 = map_option (m_index_update Suc) (rx_exec r (Some c) s 0)"
    using no by (simp add: rx_exec_Suc)
  show ?thesis
  proof (cases "rx_exec r (Some c) s 0")
    case None
    with x have y: "rx_exec r prev (c # s) 0 = None" by simp
    have "rx_replace_all r rep prev (c # s) = c # s"
      unfolding rx_replace_all.simps[of r rep prev "c # s"] y by simp
    moreover have "rx_replace_all r rep (Some c) s = s"
      unfolding rx_replace_all.simps[of r rep "Some c" s] None by simp
    ultimately show ?thesis by simp
  next
    case (Some m)
    from rx_exec_spans[OF sp Some] obtain pre where
      s: "s = pre @ m_text m @ m_rest m" and i: "m_index m = length pre"
      by auto
    define tl1 where "tl1 =
      (if m_text m \<noteq> [] \<and> length (m_rest m) < length s
       then rx_replace_all r rep (Some (last (m_text m))) (m_rest m)
       else (case m_rest m of [] \<Rightarrow> []
             | c' # s' \<Rightarrow> if length s' < length s
                          then c' # rx_replace_all r rep (Some c') s' else c' # s'))"
    define tl2 where "tl2 =
      (if m_text m \<noteq> [] \<and> length (m_rest m) < length (c # s)
       then rx_replace_all r rep (Some (last (m_text m))) (m_rest m)
       else (case m_rest m of [] \<Rightarrow> []
             | c' # s' \<Rightarrow> if length s' < length (c # s)
                          then c' # rx_replace_all r rep (Some c') s' else c' # s'))"
    have len: "length (m_rest m) \<le> length s"
      using arg_cong[OF s, of length] by simp
    have len': "m_text m \<noteq> [] \<Longrightarrow> length (m_rest m) < length s"
      using arg_cong[OF s, of length] by simp
    have tl: "tl1 = tl2"
    proof (cases "m_text m = []")
      case True
      show ?thesis
      proof (cases "m_rest m")
        case Nil
        with True show ?thesis by (simp add: tl1_def tl2_def)
      next
        case (Cons c' s')
        with len have "length s' < length s" by simp
        with True Cons show ?thesis by (simp add: tl1_def tl2_def)
      qed
    next
      case False
      with len'[OF False] show ?thesis by (simp add: tl1_def tl2_def)
    qed
    have a: "rx_replace_all r rep (Some c) s = take (m_index m) s @ rep @ tl1"
      unfolding rx_replace_all.simps[of r rep "Some c" s] Some tl1_def by simp
    from x Some have y: "rx_exec r prev (c # s) 0 = Some (m_index_update Suc m)" by simp
    have b: "rx_replace_all r rep prev (c # s) = take (Suc (m_index m)) (c # s) @ rep @ tl2"
      unfolding rx_replace_all.simps[of r rep prev "c # s"] y tl2_def by simp
    show ?thesis
      unfolding a b tl by simp
  qed
qed

text \<open>A match at the first character is replaced and the search goes on behind it.\<close>

lemma rx_replace_all_head:
  assumes "r (prev, u @ s, []) = (p', s, caps) # xs" and "u \<noteq> []"
  shows "rx_replace_all r rep prev (u @ s) = rep @ rx_replace_all r rep (Some (last u)) s"
proof -
  from assms(2) obtain c u' where u: "u = c # u'" by (cases u) auto
  have e: "rx_exec r prev (u @ s) 0
      = Some \<lparr>m_index = 0, m_text = u, m_caps = caps, m_rest = s\<rparr>"
    using assms(1) unfolding u by simp
  show ?thesis
    unfolding rx_replace_all.simps[of r rep prev "u @ s"] e using assms(2) by simp
qed

lemma rx_replace_all_skip_string:
  assumes sp: "rx_spans (\<lambda>u. True) r"
    and no: "\<And>p i. i < length w \<Longrightarrow> r (p, drop i w @ s, []) = []"
  shows "rx_replace_all r rep prev (w @ s)
     = w @ rx_replace_all r rep (if w = [] then prev else Some (last w)) s"
  using no
proof (induction w arbitrary: prev)
  case Nil
  show ?case by simp
next
  case (Cons c w)
  from Cons.prems[of 0 prev] have "r (prev, c # w @ s, []) = []" by simp
  from rx_replace_all_skip[OF sp this]
  have a: "rx_replace_all r rep prev ((c # w) @ s) = c # rx_replace_all r rep (Some c) (w @ s)"
    by simp
  have "r (p, drop i w @ s, []) = []" if "i < length w" for p i
    using Cons.prems[of "Suc i" p] that by simp
  from Cons.IH[OF this]
  have b: "rx_replace_all r rep (Some c) (w @ s)
      = w @ rx_replace_all r rep (if w = [] then Some c else Some (last w)) s" .
  show ?case
    unfolding a b by simp
qed

text \<open>The first state of a greedy star is behind the longest run.\<close>

lemma rx_star_head:
  "\<exists>p1 xs. rx_star P (prev, s, caps) = (p1, dropWhile P s, caps) # xs"
proof (induction s arbitrary: prev)
  case Nil
  show ?case by simp
next
  case (Cons c s)
  show ?case
  proof (cases "P c")
    case True
    from Cons.IH[of "Some c"] obtain p1 xs where
      "rx_star P (Some c, s, caps) = (p1, dropWhile P s, caps) # xs" by auto
    with True show ?thesis by simp
  next
    case False
    then show ?thesis by simp
  qed
qed


lemma dropWhile_run:
  assumes "\<forall>c \<in> set b. P c" and "rest = [] \<or> \<not> P (hd rest)"
  shows "dropWhile P (b @ rest) = rest"
proof -
  from assms(1) have "dropWhile P (b @ rest) = dropWhile P rest"
    by (simp add: dropWhile_append)
  also from assms(2) have "dropWhile P rest = rest"
    by (cases rest) auto
  finally show ?thesis .
qed

section \<open>The four expressions at a position\<close>









lemma hashCommentRegex_inside_line:
  "\<not> is_line_terminator c \<Longrightarrow> hashCommentRegex (Some c, s, caps) = []"
  by (simp add: hashCommentRegex_def)





section \<open>The passes of the normalizer on separated pieces\<close>









text \<open>A text without the first character of an opening delimiter is passed over.\<close>

lemma rx_replace_all_skip_plain:
  assumes sp: "rx_spans (\<lambda>u. True) r"
    and none: "\<And>p s. \<not> prefix (c0 # d) s \<Longrightarrow> r (p, s, []) = []"
    and w: "c0 \<notin> set w"
  shows "\<exists>prev'. rx_replace_all r rep prev (w @ s) = w @ rx_replace_all r rep prev' s"
proof -
  have "r (p, drop i w @ s, []) = []" if "i < length w" for p i
  proof (rule none)
    from that obtain c w' where d: "drop i w = c # w'"
      by (cases "drop i w") auto
    then have "c \<in> set w" by (metis in_set_dropD list.set_intros(1))
    with w have "c \<noteq> c0" by auto
    then show "\<not> prefix (c0 # d) (drop i w @ s)"
      unfolding d by simp
  qed
  from rx_replace_all_skip_string[OF sp this] show ?thesis by blast
qed

lemma removed_step:
  assumes "\<And>prev. rx_replace_all r rep prev s = t"
    and "\<exists>prev'. rx_replace_all r rep prev (w @ s) = w @ rx_replace_all r rep prev' s"
  shows "rx_replace_all r rep prev (w @ s) = w @ t"
  using assms by auto
















section \<open>Properties of the Term Extractor\<close>

lemma rx_exec_cls: "rx_exec (rx_cls P) prev s idx \<noteq> None \<longleftrightarrow> (\<exists>c \<in> set s. P c)"
  by (induction s arbitrary: prev idx) auto

lemma has_chinese_iff: "has_chinese s \<longleftrightarrow> (\<exists>c \<in> set s. is_chinese c)"
  unfolding has_chinese_def rx_test_def by (rule rx_exec_cls)

lemma dropWhile_id: "xs = [] \<or> \<not> P (hd xs) \<Longrightarrow> dropWhile P xs = xs"
  by (cases xs) auto

lemma js_trim_idem: "js_trim (js_trim s) = js_trim s"
proof -
  define u where "u = dropWhile is_space s"
  define w where "w = dropWhile is_space (rev u)"
  have u: "u = [] \<or> \<not> is_space (hd u)"
    unfolding u_def by (metis hd_dropWhile)
  have w: "w = [] \<or> \<not> is_space (hd w)"
    unfolding w_def by (metis hd_dropWhile)
  have t: "js_trim s = rev w"
    by (simp add: js_trim_def u_def w_def)
  have "rev w = [] \<or> \<not> is_space (hd (rev w))"
  proof (cases "w = []")
    case True
    then show ?thesis by simp
  next
    case False
    have "suffix w (rev u)"
      unfolding w_def by (rule suffix_dropWhile)
    then have "prefix (rev w) u"
      by (metis rev_rev_ident suffix_to_prefix)
    then obtain z where z: "u = rev w @ z"
      by (auto simp: prefix_def)
    from False have "rev w \<noteq> []" by simp
    with z have "hd (rev w) = hd u" "u \<noteq> []" by auto
    with u show ?thesis by simp
  qed
  then have a: "dropWhile is_space (rev w) = rev w"
    by (rule dropWhile_id)
  from w have b: "dropWhile is_space w = w"
    by (rule dropWhile_id)
  show ?thesis
    unfolding t by (simp add: js_trim_def a b)
qed

text \<open>A loop that either skips a match or pushes a term with the property \<open>P\<close> keeps
  \<open>P\<close> on all its terms.\<close>

lemma loop_ok:
  assumes step: "\<And>terms m ms. f terms (m # ms) = f terms ms \<or>
      (P (g m) \<and> f terms (m # ms) = f (terms @ [g m]) ms)"
    and nil: "\<And>terms. f terms [] = terms"
    and inv: "\<forall>t \<in> set terms. P t"
  shows "\<forall>t \<in> set (f terms ms). P t"
  using inv
proof (induction ms arbitrary: terms)
  case Nil
  then show ?case by (simp add: nil)
next
  case (Cons m ms)
  from step[of terms m ms] show ?case
  proof
    assume "f terms (m # ms) = f terms ms"
    with Cons.IH[OF Cons.prems] show ?thesis by simp
  next
    assume a: "P (g m) \<and> f terms (m # ms) = f (terms @ [g m]) ms"
    with Cons.prems have "\<forall>x \<in> set (terms @ [g m]). P x" by simp
    from Cons.IH[OF this] a show ?thesis by simp
  qed
qed

lemma doubleQuote_loop_ok:
  assumes "\<forall>t \<in> set terms. P t"
    and "P = (\<lambda>t. content t \<noteq> [] \<and> has_chinese (content t) \<and> js_trim (content t) = content t
        \<and> \<not> isFilePath (content t) \<and> (ttype t \<noteq> Template \<longrightarrow> \<not> isCodeLike (content t)))"
  shows "\<forall>t \<in> set (doubleQuote_loop text ctx terms ms). P t"
proof (rule loop_ok[where f = "doubleQuote_loop text ctx"
      and g = "\<lambda>m. mk_term (m_text m) (js_trim (rx_cap (m_caps m) 0)) DoubleQuote"])
  fix terms m ms
  show "doubleQuote_loop text ctx terms (m # ms) = doubleQuote_loop text ctx terms ms \<or>
    (P (mk_term (m_text m) (js_trim (rx_cap (m_caps m) 0)) DoubleQuote) \<and>
     doubleQuote_loop text ctx terms (m # ms) =
       doubleQuote_loop text ctx (terms @ [mk_term (m_text m) (js_trim (rx_cap (m_caps m) 0)) DoubleQuote]) ms)"
    unfolding assms(2) by (simp add: Let_def mk_term_def js_trim_idem)
qed (simp_all add: assms(1))

lemma i18nField_loop_ok:
  assumes "\<forall>t \<in> set terms. P t"
    and "P = (\<lambda>t. content t \<noteq> [] \<and> has_chinese (content t) \<and> js_trim (content t) = content t
        \<and> \<not> isFilePath (content t) \<and> (ttype t \<noteq> Template \<longrightarrow> \<not> isCodeLike (content t)))"
  shows "\<forall>t \<in> set (i18nField_loop text ctx terms ms). P t"
proof (rule loop_ok[where f = "i18nField_loop text ctx"
      and g = "\<lambda>m. mk_term (m_text m) (js_trim (rx_cap (m_caps m) 0)) I18nField"])
  fix terms m ms
  show "i18nField_loop text ctx terms (m # ms) = i18nField_loop text ctx terms ms \<or>
    (P (mk_term (m_text m) (js_trim (rx_cap (m_caps m) 0)) I18nField) \<and>
     i18nField_loop text ctx terms (m # ms) =
       i18nField_loop text ctx (terms @ [mk_term (m_text m) (js_trim (rx_cap (m_caps m) 0)) I18nField]) ms)"
    unfolding assms(2) by (simp add: Let_def mk_term_def js_trim_idem)
qed (simp_all add: assms(1))

lemma singleQuote_loop_ok:
  assumes "\<forall>t \<in> set terms. P t"
    and "P = (\<lambda>t. content t \<noteq> [] \<and> has_chinese (content t) \<and> js_trim (content t) = content t
        \<and> \<not> isFilePath (content t) \<and> (ttype t \<noteq> Template \<longrightarrow> \<not> isCodeLike (content t)))"
  shows "\<forall>t \<in> set (singleQuote_loop text ctx terms ms). P t"
proof (rule loop_ok[where f = "singleQuote_loop text ctx"
      and g = "\<lambda>m. mk_term (m_text m) (js_trim (rx_cap (m_caps m) 0)) SingleQuote"])
  fix terms m ms
  show "singleQuote_loop text ctx terms (m # ms) = singleQuote_loop text ctx terms ms \<or>
    (P (mk_term (m_text m) (js_trim (rx_cap (m_caps m) 0)) SingleQuote) \<and>
     singleQuote_loop text ctx terms (m # ms) =
       singleQuote_loop text ctx (terms @ [mk_term (m_text m) (js_trim (rx_cap (m_caps m) 0)) SingleQuote]) ms)"
    unfolding assms(2) by (simp add: Let_def mk_term_def js_trim_idem)
qed (simp_all add: assms(1))

lemma template_loop_ok:
  assumes "\<forall>t \<in> set terms. P t"
    and "P = (\<lambda>t. content t \<noteq> [] \<and> has_chinese (content t) \<and> js_trim (content t) = content t
        \<and> \<not> isFilePath (content t) \<and> (ttype t \<noteq> Template \<longrightarrow> \<not> isCodeLike (content t)))"
  shows "\<forall>t \<in> set (template_loop text ctx terms ms). P t"
proof (rule loop_ok[where f = "template_loop text ctx"
      and g = "\<lambda>m. mk_term (m_text m) (js_trim (rx_cap (m_caps m) 0)) Template"])
  fix terms m ms
  show "template_loop text ctx terms (m # ms) = template_loop text ctx terms ms \<or>
    (P (mk_term (m_text m) (js_trim (rx_cap (m_caps m) 0)) Template) \<and>
     template_loop text ctx terms (m # ms) =
       template_loop text ctx (terms @ [mk_term (m_text m) (js_trim (rx_cap (m_caps m) 0)) Template]) ms)"
    unfolding assms(2) by (simp add: Let_def mk_term_def js_trim_idem)
qed (simp_all add: assms(1))

lemma tagContent_loop_ok:
  assumes "\<forall>t \<in> set terms. P t"
    and "P = (\<lambda>t. content t \<noteq> [] \<and> has_chinese (content t) \<and> js_trim (content t) = content t
        \<and> \<not> isFilePath (content t) \<and> (ttype t \<noteq> Template \<longrightarrow> \<not> isCodeLike (content t)))"
  shows "\<forall>t \<in> set (tagContent_loop text terms ms). P t"
proof (rule loop_ok[where f = "tagContent_loop text"
      and g = "\<lambda>m. mk_term (asc ''>'' @ rx_cap (m_caps m) 0 @ asc ''<'') (js_trim (rx_cap (m_caps m) 0)) TagContent"])
  fix terms m ms
  show "tagContent_loop text terms (m # ms) = tagContent_loop text terms ms \<or>
    (P (mk_term (asc ''>'' @ rx_cap (m_caps m) 0 @ asc ''<'') (js_trim (rx_cap (m_caps m) 0)) TagContent) \<and>
     tagContent_loop text terms (m # ms) =
       tagContent_loop text (terms @ [mk_term (asc ''>'' @ rx_cap (m_caps m) 0 @ asc ''<'') (js_trim (rx_cap (m_caps m) 0)) TagContent]) ms)"
    unfolding assms(2) by (simp add: Let_def mk_term_def js_trim_idem)
qed (simp_all add: assms(1))

lemma buttonText_loop_ok:
  assumes "\<forall>t \<in> set terms. P t"
    and "P = (\<lambda>t. content t \<noteq> [] \<and> has_chinese (content t) \<and> js_trim (content t) = content t
        \<and> \<not> isFilePath (content t) \<and> (ttype t \<noteq> Template \<longrightarrow> \<not> isCodeLike (content t)))"
  shows "\<forall>t \<in> set (buttonText_loop text terms ms). P t"
proof (rule loop_ok[where f = "buttonText_loop text"
      and g = "\<lambda>m. \<lparr>original = m_text m, content = js_trim (rx_cap (m_caps m) 2), ttype = ButtonText, tagName = rx_cap (m_caps m) 0, attrs = rx_cap (m_caps m) 1\<rparr>"])
  fix terms m ms
  show "buttonText_loop text terms (m # ms) = buttonText_loop text terms ms \<or>
    (P (\<lparr>original = m_text m, content = js_trim (rx_cap (m_caps m) 2), ttype = ButtonText, tagName = rx_cap (m_caps m) 0, attrs = rx_cap (m_caps m) 1\<rparr>) \<and>
     buttonText_loop text terms (m # ms) =
       buttonText_loop text (terms @ [\<lparr>original = m_text m, content = js_trim (rx_cap (m_caps m) 2), ttype = ButtonText, tagName = rx_cap (m_caps m) 0, attrs = rx_cap (m_caps m) 1\<rparr>]) ms)"
    unfolding assms(2) by (simp add: Let_def mk_term_def js_trim_idem)
qed (simp_all add: assms(1))

lemma extractChineseTerms_ok:
  "\<forall>t \<in> set (extractChineseTerms text ctx).
     content t \<noteq> [] \<and> has_chinese (content t) \<and> js_trim (content t) = content t
       \<and> \<not> isFilePath (content t) \<and> (ttype t \<noteq> Template \<longrightarrow> \<not> isCodeLike (content t))"
proof -
  define P :: "candidate \<Rightarrow> bool" where "P = (\<lambda>t. content t \<noteq> [] \<and> has_chinese (content t) \<and> js_trim (content t) = content t
        \<and> \<not> isFilePath (content t) \<and> (ttype t \<noteq> Template \<longrightarrow> \<not> isCodeLike (content t)))"
  have 0: "\<forall>t \<in> set ([] :: candidate list). P t" by simp
  note 1 = doubleQuote_loop_ok[OF 0 P_def]
  note 2 = i18nField_loop_ok[OF 1 P_def]
  note 3 = singleQuote_loop_ok[OF 2 P_def]
  note 4 = template_loop_ok[OF 3 P_def]
  note 5 = tagContent_loop_ok[OF 4 P_def]
  note 6 = buttonText_loop_ok[OF 5 P_def]
  have "\<forall>t \<in> set (extractChineseTerms text ctx). P t"
    by (cases "ctx = TemplateContext") (simp_all add: extractChineseTerms_def Let_def 4 6)
  then show ?thesis by (simp add: P_def)
qed

text \<open>
  C8. Every term that extraction returns, for every buffer and both contexts, has a content
  that is trimmed, not empty, and contains at least one Chinese character.
\<close>

theorem candidate_content_has_chinese:
  "\<forall>t \<in> set (extractChineseTerms text ctx).
     content t \<noteq> [] \<and> js_trim (content t) = content t \<and> (\<exists>c \<in> set (content t). is_chinese c)"
  using extractChineseTerms_ok[of "text" ctx] by (auto simp: has_chinese_iff)

theorem candidate_content_has_chinese_witness:
  "mk_term (dq @ [20013, 25991] @ dq) [20013, 25991] DoubleQuote
     \<in> set (extractChineseTerms (asc ''x = '' @ dq @ [20013, 25991] @ dq) ScriptContext)
   \<and> [20013, 25991] \<noteq> [] \<and> js_trim [20013, 25991] = [20013, 25991]
   \<and> (\<exists>c \<in> set [20013, 25991]. is_chinese c)"
proof -
  have e: "extractChineseTerms (asc ''x = '' @ dq @ [20013, 25991] @ dq) ScriptContext
      = [mk_term (dq @ [20013, 25991] @ dq) [20013, 25991] DoubleQuote]"
    by (simp add: js_eval)
  from candidate_content_has_chinese[of "asc ''x = '' @ dq @ [20013, 25991] @ dq" ScriptContext]
  show ?thesis
    unfolding e by (simp add: mk_term_def)
qed

text \<open>
  C7, as stated, fails: the scanner of template literals does not test its content with
  \<open>isCodeLike\<close>, so the literal \<^verbatim>\<open>`console.log(X)`\<close>, with a Chinese character for \<open>X\<close>, is a
  candidate although its content is a code fragment.
\<close>

theorem template_literal_code_fragment_extracted:
  "extractChineseTerms (bq @ asc ''console.log('' @ [20013] @ asc '')'' @ bq) ScriptContext
     = [mk_term (bq @ asc ''console.log('' @ [20013] @ asc '')'' @ bq)
          (asc ''console.log('' @ [20013] @ asc '')'') Template]
   \<and> isCodeLike (asc ''console.log('' @ [20013] @ asc '')'')"
  by (simp add: js_eval)

text \<open>
  C7, amended. For every buffer and both contexts, no term that extraction returns has a
  content that \<open>isFilePath\<close> accepts, and no returned term other than a template literal
  has a content that \<open>isCodeLike\<close> accepts.
\<close>

theorem no_file_path_no_code_candidate:
  "\<forall>t \<in> set (extractChineseTerms text ctx).
     \<not> isFilePath (content t) \<and> (ttype t \<noteq> Template \<longrightarrow> \<not> isCodeLike (content t))"
  using extractChineseTerms_ok[of "text" ctx] by blast

theorem no_file_path_no_code_candidate_witness:
  "mk_term (sq @ [20445, 23384] @ sq) [20445, 23384] SingleQuote
     \<in> set (extractChineseTerms
         (asc ''a('' @ dq @ asc ''./'' @ [20013] @ asc ''.png'' @ dq @ asc '', '' @ dq
            @ asc ''console.log('' @ [20013] @ asc '')'' @ dq @ asc '', '' @ sq @ [20445, 23384]
            @ sq @ asc '')'') ScriptContext)
   \<and> \<not> isFilePath [20445, 23384] \<and> \<not> isCodeLike [20445, 23384]"
proof -
  have e: "extractChineseTerms
         (asc ''a('' @ dq @ asc ''./'' @ [20013] @ asc ''.png'' @ dq @ asc '', '' @ dq
            @ asc ''console.log('' @ [20013] @ asc '')'' @ dq @ asc '', '' @ sq @ [20445, 23384]
            @ sq @ asc '')'') ScriptContext
      = [mk_term (sq @ [20445, 23384] @ sq) [20445, 23384] SingleQuote]"
    by (simp add: js_eval)
  from no_file_path_no_code_candidate[of
      "asc ''a('' @ dq @ asc ''./'' @ [20013] @ asc ''.png'' @ dq @ asc '', '' @ dq
         @ asc ''console.log('' @ [20013] @ asc '')'' @ dq @ asc '', '' @ sq @ [20445, 23384]
         @ sq @ asc '')''" ScriptContext]
  show ?thesis
    unfolding e by (simp add: mk_term_def)
qed

section \<open>Properties of the Rewrite Engine\<close>

lemma checkIfInAttribute_basic:
  "rx_exec (basicAttrRegex orig) None tpl 0 \<noteq> None \<Longrightarrow>
     isAttribute (checkIfInAttribute tpl orig) \<and> needsBinding (checkIfInAttribute tpl orig)"
  by (auto simp: checkIfInAttribute_def)

text \<open>
  C2. For the template \<^verbatim>\<open><el-input placeholder="...">\<close> with the three Chinese characters of
  "please enter" as the value, the rewrite gives \<^verbatim>\<open><el-input :placeholder="$t('...')">\<close>;
  \<open>checkIfInAttribute\<close> classifies the literal as a plain attribute that needs binding, and
  whenever the plain-attribute expression matches, that classification is the one
  returned, whatever the bound-attribute expression would match.
\<close>

theorem plain_attribute_is_bound:
  "newTemplateContent (processVueTemplate (asc ''$t'') Map.empty
       (asc ''<el-input placeholder='' @ dq @ [35831, 36755, 20837] @ dq @ asc ''>''))
     = asc ''<el-input :placeholder='' @ dq @ asc ''$t('' @ sq @ [35831, 36755, 20837] @ sq
         @ asc '')'' @ dq @ asc ''>''
   \<and> checkIfInAttribute (asc ''<el-input placeholder='' @ dq @ [35831, 36755, 20837] @ dq @ asc ''>'')
         (dq @ [35831, 36755, 20837] @ dq)
     = \<lparr>isAttribute = True, needsBinding = True, attrName = asc ''placeholder''\<rparr>
   \<and> (rx_exec (basicAttrRegex orig) None tpl 0 \<noteq> None \<longrightarrow>
        isAttribute (checkIfInAttribute tpl orig) \<and> needsBinding (checkIfInAttribute tpl orig))"
proof (intro conjI)
  show "newTemplateContent (processVueTemplate (asc ''$t'') Map.empty
       (asc ''<el-input placeholder='' @ dq @ [35831, 36755, 20837] @ dq @ asc ''>''))
     = asc ''<el-input :placeholder='' @ dq @ asc ''$t('' @ sq @ [35831, 36755, 20837] @ sq
         @ asc '')'' @ dq @ asc ''>''"
    by (simp add: js_eval)
  show "checkIfInAttribute (asc ''<el-input placeholder='' @ dq @ [35831, 36755, 20837] @ dq @ asc ''>'')
         (dq @ [35831, 36755, 20837] @ dq)
     = \<lparr>isAttribute = True, needsBinding = True, attrName = asc ''placeholder''\<rparr>"
    by (simp add: js_eval)
  show "rx_exec (basicAttrRegex orig) None tpl 0 \<noteq> None \<longrightarrow>
        isAttribute (checkIfInAttribute tpl orig) \<and> needsBinding (checkIfInAttribute tpl orig)"
    using checkIfInAttribute_basic by blast
qed

theorem plain_attribute_is_bound_witness:
  "rx_exec (vueAttrRegex (dq @ asc ''x'' @ dq)) None
       (asc ''<a :b='' @ dq @ asc ''x'' @ dq @ asc ''>'') 0 \<noteq> None
   \<and> rx_exec (basicAttrRegex (dq @ asc ''x'' @ dq)) None
       (asc ''<a :b='' @ dq @ asc ''x'' @ dq @ asc ''>'') 0 \<noteq> None
   \<and> isAttribute (checkIfInAttribute (asc ''<a :b='' @ dq @ asc ''x'' @ dq @ asc ''>'')
         (dq @ asc ''x'' @ dq))
   \<and> needsBinding (checkIfInAttribute (asc ''<a :b='' @ dq @ asc ''x'' @ dq @ asc ''>'')
         (dq @ asc ''x'' @ dq))"
proof -
  have v: "rx_exec (vueAttrRegex (dq @ asc ''x'' @ dq)) None
       (asc ''<a :b='' @ dq @ asc ''x'' @ dq @ asc ''>'') 0 \<noteq> None"
    by (simp add: js_eval)
  have b: "rx_exec (basicAttrRegex (dq @ asc ''x'' @ dq)) None
       (asc ''<a :b='' @ dq @ asc ''x'' @ dq @ asc ''>'') 0 \<noteq> None"
    by (simp add: js_eval)
  from plain_attribute_is_bound[of "dq @ asc ''x'' @ dq"
      "asc ''<a :b='' @ dq @ asc ''x'' @ dq @ asc ''>''"] b v
  show ?thesis by blast
qed

text \<open>
  C1 at the template \<^verbatim>\<open><p>{{ `X` + `X` }}</p>\<close>, with a Chinese character for \<open>X\<close>. Extraction
  returns the literal twice. The rewrite of a plain template literal replaces the first
  occurrence only, and the second term is skipped because its original text is already in
  the set of processed originals, so the second literal stays in the output; extraction on
  that output returns it as a candidate. The rewrites of quoted literals, of tag contents
  and of button texts replace every occurrence.
\<close>

theorem second_pass_finds_candidate:
  "newTemplateContent (processVueTemplate (asc ''$t'') Map.empty
       (asc ''<p>{{ '' @ bq @ [20013] @ bq @ asc '' + '' @ bq @ [20013] @ bq @ asc '' }}</p>''))
     = asc ''<p>{{ {{ $t('' @ sq @ [20013] @ sq @ asc '') }} + '' @ bq @ [20013] @ bq
         @ asc '' }}</p>''
   \<and> extractChineseTerms (removeComments
         (asc ''<p>{{ {{ $t('' @ sq @ [20013] @ sq @ asc '') }} + '' @ bq @ [20013] @ bq
            @ asc '' }}</p>'')) TemplateContext
     = [mk_term (bq @ [20013] @ bq) [20013] Template]"
  by (simp add: js_eval)
section \<open>Placeholder assignment in the converter\<close>

text \<open>The expression for the markers at a position.\<close>

lemma variableRegex_none:
  "\<not> prefix [36, 123] s \<Longrightarrow> variableRegex (prev, s, caps) = []"
  by (simp add: variableRegex_def asc_def)

lemma variableRegex_head:
  assumes "e \<noteq> []" and "125 \<notin> set e"
  shows "\<exists>p1 xs. variableRegex (prev, asc ''${'' @ e @ asc ''}'' @ rest, caps)
           = (p1, rest, caps @ [e]) # xs"
proof -
  from assms(1) obtain a e' where e: "e = a # e'" by (cases e) auto
  with assms(2) have a: "a \<noteq> 125" and e': "\<forall>c \<in> set e'. c \<noteq> 125" by auto
  have "dropWhile (\<lambda>c. c \<noteq> 125) (e' @ 125 # rest) = 125 # rest"
    using e' by (intro dropWhile_run) auto
  with rx_star_head[of "\<lambda>c. c \<noteq> 125" "Some a" "e' @ 125 # rest" caps]
  obtain p1 xs where
    st: "rx_star (\<lambda>c. c \<noteq> 125) (Some a, e' @ 125 # rest, caps) = (p1, 125 # rest, caps) # xs"
    by auto
  show ?thesis
    unfolding e by (simp add: variableRegex_def asc_def rx_plus_def rx_seq_def a st)
qed

lemma rx_exec_variable_plain:
  assumes "36 \<notin> set w"
  shows "rx_exec variableRegex prev (w @ s) idx
     = rx_exec variableRegex (if w = [] then prev else Some (last w)) s (idx + length w)"
  using assms
proof (induction w arbitrary: prev idx)
  case Nil
  show ?case by simp
next
  case (Cons c w)
  then have "c \<noteq> 36" and w: "36 \<notin> set w" by auto
  then have "variableRegex (prev, c # w @ s, []) = []"
    by (intro variableRegex_none) simp
  then have "rx_exec variableRegex prev ((c # w) @ s) idx
      = rx_exec variableRegex (Some c) (w @ s) (Suc idx)" by simp
  also have "\<dots> = rx_exec variableRegex (if w = [] then Some c else Some (last w)) s
      (Suc idx + length w)"
    by (rule Cons.IH[OF w])
  finally show ?case by simp
qed

lemma rx_exec_variable_end: "rx_exec variableRegex prev [] idx = None"
  by (simp add: variableRegex_def asc_def)

lemma rx_exec_variable_marker:
  assumes "e \<noteq> []" and "125 \<notin> set e"
  shows "rx_exec variableRegex prev (asc ''${'' @ e @ asc ''}'' @ rest) idx
     = Some \<lparr>m_index = idx, m_text = asc ''${'' @ e @ asc ''}'', m_caps = [e], m_rest = rest\<rparr>"
proof -
  from variableRegex_head[OF assms, of prev rest "[]"] obtain p1 xs where
    "variableRegex (prev, 36 # 123 # e @ 125 # rest, []) = (p1, rest, [e]) # xs"
    by (auto simp: asc_def)
  moreover have "take (3 + length e) (36 # 123 # e @ 125 # rest) = 36 # 123 # e @ [125]"
    by (simp add: numeral_3_eq_3)
  ultimately show ?thesis by (simp add: asc_def)
qed

text \<open>The markers of a text whose parts between the markers have no dollar sign.\<close>

lemma variable_matches:
  assumes "36 \<notin> set t0"
    and "\<forall>(e, w) \<in> set segs. e \<noteq> [] \<and> 125 \<notin> set e \<and> 36 \<notin> set w"
  shows "map (\<lambda>m. rx_cap (m_caps m) 0)
       (rx_matches variableRegex prev
          (t0 @ concat (map (\<lambda>(e, w). asc ''${'' @ e @ asc ''}'' @ w) segs)) idx)
     = map fst segs"
  using assms
proof (induction segs arbitrary: t0 prev idx)
  case Nil
  from rx_exec_variable_plain[OF Nil.prems(1), of prev "[]" idx]
  have "rx_exec variableRegex prev t0 idx = None"
    by (simp add: rx_exec_variable_end del: rx_exec.simps)
  then show ?case
    by (simp add: rx_matches.simps[of variableRegex prev t0 idx])
next
  case (Cons x segs)
  obtain e w where x: "x = (e, w)" by (cases x) auto
  from Cons.prems(2) x have e: "e \<noteq> []" "125 \<notin> set e" and w: "36 \<notin> set w"
    and rest: "\<forall>(e, w) \<in> set segs. e \<noteq> [] \<and> 125 \<notin> set e \<and> 36 \<notin> set w"
    by auto
  define R where "R = w @ concat (map (\<lambda>(e, w). asc ''${'' @ e @ asc ''}'' @ w) segs)"
  define T where "T = t0 @ asc ''${'' @ e @ asc ''}'' @ R"
  define m where "m = \<lparr>m_index = idx + length t0, m_text = asc ''${'' @ e @ asc ''}'',
    m_caps = [e], m_rest = R\<rparr>"
  have T: "t0 @ concat (map (\<lambda>(e, w). asc ''${'' @ e @ asc ''}'' @ w) (x # segs)) = T"
    by (simp add: T_def R_def x)
  have ex: "rx_exec variableRegex prev T idx = Some m"
    unfolding T_def m_def
    using rx_exec_variable_plain[OF Cons.prems(1), of prev "asc ''${'' @ e @ asc ''}'' @ R" idx]
      rx_exec_variable_marker[OF e, of _ R "idx + length t0"]
    by simp
  have len: "m_text m \<noteq> [] \<and> length (m_rest m) < length T"
    by (simp add: m_def T_def asc_def)
  have "rx_matches variableRegex prev T idx
      = m # rx_matches variableRegex (Some (last (m_text m))) (m_rest m)
              (m_index m + length (m_text m))"
    unfolding rx_matches.simps[of variableRegex prev T idx] ex using len by simp
  moreover have "map (\<lambda>m. rx_cap (m_caps m) 0)
       (rx_matches variableRegex (Some (last (m_text m))) (m_rest m)
          (m_index m + length (m_text m))) = map fst segs"
    using Cons.IH[OF w rest] by (simp add: m_def R_def)
  ultimately show ?case
    unfolding T by (simp add: m_def rx_cap_def x)
qed

text \<open>The replacement of one marker, on a text made of markers, of parts already replaced
  and of parts between them, none of which has a dollar sign.\<close>

lemma stop_prefix:
  "x \<notin> set v \<Longrightarrow> x \<notin> set e \<Longrightarrow> prefix (v @ [x]) (e @ x # s) \<Longrightarrow> v = e"
proof (induction v arbitrary: e)
  case Nil
  then show ?case by (cases e) auto
next
  case (Cons a v)
  show ?case
  proof (cases e)
    case Nil
    with Cons.prems show ?thesis by auto
  next
    case (Cons b e')
    with Cons.prems Cons.IH[of e'] show ?thesis by auto
  qed
qed

lemma rx_lit_suffix: "rx_spans (\<lambda>u. True) (rx_lit l)"
  by (rule rx_spans_lit) simp

lemma marker_lit_none:
  "\<not> prefix (36 # 123 # v @ [125]) s \<Longrightarrow> rx_lit (asc ''${'' @ v @ asc ''}'') (p, s, []) = []"
  by (simp add: asc_def)

lemma replace_marker_plain:
  assumes "\<And>prev. rx_replace_all (rx_lit (asc ''${'' @ v @ asc ''}'')) rep prev s = t"
    and "36 \<notin> set w"
  shows "rx_replace_all (rx_lit (asc ''${'' @ v @ asc ''}'')) rep prev (w @ s) = w @ t"
  using removed_step[of "rx_lit (asc ''${'' @ v @ asc ''}'')" rep s t, OF assms(1)
      rx_replace_all_skip_plain[OF rx_lit_suffix marker_lit_none assms(2)]] .

lemma replace_marker_same:
  assumes "\<And>prev. rx_replace_all (rx_lit (asc ''${'' @ v @ asc ''}'')) rep prev s = t"
  shows "rx_replace_all (rx_lit (asc ''${'' @ v @ asc ''}'')) rep prev
       ((asc ''${'' @ v @ asc ''}'') @ s) = rep @ t"
proof -
  define M where "M = asc ''${'' @ v @ asc ''}''"
  have ne: "M \<noteq> []"
    by (simp add: M_def asc_def)
  then have "rx_lit M (prev, M @ s, []) = (Some (last M), s, []) # []"
    by simp
  from rx_replace_all_head[where r = "rx_lit M" and u = M and rep = rep, OF this ne]
  show ?thesis unfolding M_def assms .
qed

lemma replace_marker_other:
  assumes "\<And>prev. rx_replace_all (rx_lit (asc ''${'' @ v @ asc ''}'')) rep prev s = t"
    and "36 \<notin> set e" and "125 \<notin> set e" and "125 \<notin> set v" and "e \<noteq> v"
  shows "rx_replace_all (rx_lit (asc ''${'' @ v @ asc ''}'')) rep prev
       ((asc ''${'' @ e @ asc ''}'') @ s) = (asc ''${'' @ e @ asc ''}'') @ t"
proof -
  have "\<not> prefix (v @ [125]) (e @ 125 # s)"
    using stop_prefix[OF assms(4,3), of s] assms(5) by auto
  then have "rx_lit (asc ''${'' @ v @ asc ''}'') (prev, 36 # (123 # e @ [125]) @ s, []) = []"
    by (intro marker_lit_none) simp
  from rx_replace_all_skip[OF rx_lit_suffix this, of rep]
  have a: "rx_replace_all (rx_lit (asc ''${'' @ v @ asc ''}'')) rep prev
        (36 # (123 # e @ [125]) @ s)
      = 36 # rx_replace_all (rx_lit (asc ''${'' @ v @ asc ''}'')) rep (Some 36)
          ((123 # e @ [125]) @ s)" .
  have "36 \<notin> set (123 # e @ [125])" using assms(2) by simp
  from replace_marker_plain[OF assms(1) this, of "Some 36"]
  have b: "rx_replace_all (rx_lit (asc ''${'' @ v @ asc ''}'')) rep (Some 36)
        ((123 # e @ [125]) @ s) = (123 # e @ [125]) @ t" .
  have m: "asc ''${'' @ e @ asc ''}'' = 36 # 123 # e @ [125]"
    by (simp add: asc_def)
  show ?thesis
    unfolding m using a b by simp
qed

lemma replace_marker_segs:
  assumes "\<forall>(e, w) \<in> set segs. 36 \<notin> set e \<and> 125 \<notin> set e \<and> 36 \<notin> set w"
    and "\<And>e. 36 \<notin> set (ph e)" and "125 \<notin> set v"
  shows "rx_replace_all (rx_lit (asc ''${'' @ v @ asc ''}'')) rep prev
       (concat (map (\<lambda>(e, w). (if D e then ph e else asc ''${'' @ e @ asc ''}'') @ w) segs))
     = concat (map (\<lambda>(e, w). (if D e then ph e else if e = v then rep
                                else asc ''${'' @ e @ asc ''}'') @ w) segs)"
  using assms(1)
proof (induction segs arbitrary: prev)
  case Nil
  show ?case
    by (simp add: rx_replace_all.simps[of _ _ _ "[]"] asc_def)
next
  case (Cons x segs)
  obtain e w where x: "x = (e, w)" by (cases x) auto
  from Cons.prems x have e: "36 \<notin> set e" "125 \<notin> set e" and w: "36 \<notin> set w"
    and rest: "\<forall>(e, w) \<in> set segs. 36 \<notin> set e \<and> 125 \<notin> set e \<and> 36 \<notin> set w"
    by auto
  let ?r = "rx_lit (asc ''${'' @ v @ asc ''}'')"
  let ?S = "concat (map (\<lambda>(e, w). (if D e then ph e else asc ''${'' @ e @ asc ''}'') @ w) segs)"
  let ?S' = "concat (map (\<lambda>(e, w). (if D e then ph e else if e = v then rep
                                else asc ''${'' @ e @ asc ''}'') @ w) segs)"
  from Cons.IH[OF rest] have IH: "\<And>prev. rx_replace_all ?r rep prev ?S = ?S'" .
  have W: "rx_replace_all ?r rep prev (w @ ?S) = w @ ?S'" for prev
    by (rule replace_marker_plain[OF IH w])
  show ?case
  proof (cases "D e")
    case True
    have "36 \<notin> set (ph e @ w)" using assms(2)[of e] w by simp
    from replace_marker_plain[OF IH this, of prev] True show ?thesis
      by (simp add: x)
  next
    case False
    show ?thesis
    proof (cases "e = v")
      case True
      from replace_marker_same[of v rep "w @ ?S" "w @ ?S'" prev, OF W] True False
      show ?thesis by (simp add: x)
    next
      case ne: False
      from replace_marker_other[of v rep "w @ ?S" "w @ ?S'" e prev, OF W e assms(3) ne] False ne
      show ?thesis by (simp add: x)
    qed
  qed
qed

text \<open>The loop of the converter on such a text.\<close>

lemma convert_step_fst:
  "fst (convert_step (tx, m) (v, i))
     = rx_replace_all (rx_lit (asc ''${'' @ v @ asc ''}''))
         (asc ''{'' @ fromCharCode (97 + i) @ asc ''}'') None tx"
  by (simp add: convert_step_def Let_def)

lemma first_index_nth:
  assumes "k < length es" and "es ! k \<notin> set (take k es)"
  shows "length (takeWhile (\<lambda>x. x \<noteq> es ! k) es) = k"
proof -
  have "es = take k es @ es ! k # drop (Suc k) es"
    using assms(1) by (rule id_take_nth_drop)
  then have "takeWhile (\<lambda>x. x \<noteq> es ! k) es
      = takeWhile (\<lambda>x. x \<noteq> es ! k) (take k es @ es ! k # drop (Suc k) es)"
    by simp
  also have "\<dots> = take k es"
    using assms(2) by (subst takeWhile_append2) auto
  finally show ?thesis using assms(1) by simp
qed

lemma placeholder_plain:
  assumes "n \<le> 65439"
  shows "36 \<notin> set (asc ''{'' @ fromCharCode (97 + n) @ asc ''}'')"
proof -
  have "(97 + n) mod 65536 \<noteq> 36"
  proof (cases "n = 65439")
    case True
    then show ?thesis by simp
  next
    case False
    with assms have "97 + n < 65536" by simp
    then have "(97 + n) mod 65536 = 97 + n" by simp
    then show ?thesis by simp
  qed
  then show ?thesis by (simp add: asc_def fromCharCode_def)
qed

lemma convert_fold_key:
  assumes t0: "36 \<notin> set t0"
    and segs: "\<forall>(e, w) \<in> set segs. e \<noteq> [] \<and> 36 \<notin> set e \<and> 125 \<notin> set e \<and> 36 \<notin> set w"
    and n: "length segs \<le> 65439"
  shows "k \<le> length segs \<Longrightarrow>
     fst (foldl convert_step
            (t0 @ concat (map (\<lambda>(e, w). asc ''${'' @ e @ asc ''}'' @ w) segs), m0)
            (zip (take k (map fst segs)) [0 ..< k]))
     = t0 @ concat (map (\<lambda>(e, w).
           (if e \<in> set (take k (map fst segs))
            then asc ''{''
                   @ fromCharCode (97 + length (takeWhile (\<lambda>x. x \<noteq> e) (map fst segs)))
                   @ asc ''}''
            else asc ''${'' @ e @ asc ''}'') @ w) segs)"
proof (induction k)
  case 0
  show ?case by simp
next
  case (Suc k)
  define es where "es = map fst segs"
  define ph where "ph = (\<lambda>e. asc ''{''
      @ fromCharCode (97 + length (takeWhile (\<lambda>x. x \<noteq> e) es)) @ asc ''}'')"
  define v where "v = es ! k"
  define rep where "rep = asc ''{'' @ fromCharCode (97 + k) @ asc ''}''"
  define st where "st = foldl convert_step
      (t0 @ concat (map (\<lambda>(e, w). asc ''${'' @ e @ asc ''}'' @ w) segs), m0)
      (zip (take k es) [0 ..< k])"
  from Suc.prems have k: "k < length es" by (simp add: es_def)
  from Suc.prems have kk: "k \<le> length segs" by simp
  have IH: "fst st = t0 @ concat (map (\<lambda>(e, w).
      (if e \<in> set (take k es) then ph e else asc ''${'' @ e @ asc ''}'') @ w) segs)"
    unfolding st_def es_def ph_def by (rule Suc.IH[OF kk])
  have z: "zip (take (Suc k) es) [0 ..< Suc k] = zip (take k es) [0 ..< k] @ [(v, k)]"
    using k by (simp add: take_Suc_conv_app_nth v_def)
  have "fst (foldl convert_step
            (t0 @ concat (map (\<lambda>(e, w). asc ''${'' @ e @ asc ''}'' @ w) segs), m0)
            (zip (take (Suc k) es) [0 ..< Suc k]))
      = fst (convert_step (fst st, snd st) (v, k))"
    unfolding z by (simp add: st_def)
  also have "\<dots> = rx_replace_all (rx_lit (asc ''${'' @ v @ asc ''}'')) rep None (fst st)"
    unfolding convert_step_fst rep_def ..
  also have "\<dots> = t0 @ concat (map (\<lambda>(e, w).
      (if e \<in> set (take k es) then ph e else if e = v then rep
       else asc ''${'' @ e @ asc ''}'') @ w) segs)"
  proof -
    have s': "\<forall>(e, w) \<in> set segs. 36 \<notin> set e \<and> 125 \<notin> set e \<and> 36 \<notin> set w"
      using segs by auto
    have p: "36 \<notin> set (ph e)" for e
    proof -
      have "length (takeWhile (\<lambda>x. x \<noteq> e) es) \<le> length es"
        by (rule length_takeWhile_le)
      with n have "length (takeWhile (\<lambda>x. x \<noteq> e) es) \<le> 65439"
        by (simp add: es_def)
      then show ?thesis
        unfolding ph_def by (rule placeholder_plain)
    qed
    from k have "v \<in> set es" by (simp add: v_def)
    then obtain w where "(v, w) \<in> set segs" by (auto simp: es_def)
    with segs have v: "125 \<notin> set v" by auto
    show ?thesis
      unfolding IH
      by (rule replace_marker_plain[OF replace_marker_segs[OF s' p v] t0])
  qed
  also have "\<dots> = t0 @ concat (map (\<lambda>(e, w).
      (if e \<in> set (take (Suc k) es) then ph e else asc ''${'' @ e @ asc ''}'') @ w) segs)"
  proof -
    have "(if e \<in> set (take k es) then ph e else if e = v then rep
           else asc ''${'' @ e @ asc ''}'')
        = (if e \<in> set (take (Suc k) es) then ph e else asc ''${'' @ e @ asc ''}'')" for e
    proof (cases "e \<in> set (take k es)")
      case True
      then have "e \<in> set (take (Suc k) es)"
        using k by (simp add: take_Suc_conv_app_nth)
      with True show ?thesis by simp
    next
      case False
      show ?thesis
      proof (cases "e = v")
        case True
        with False have "es ! k \<notin> set (take k es)" by (simp add: v_def)
        from first_index_nth[OF k this] have "ph v = rep"
          by (simp add: ph_def rep_def v_def)
        moreover have "v \<in> set (take (Suc k) es)"
          using k by (simp add: take_Suc_conv_app_nth v_def)
        ultimately show ?thesis using True False by simp
      next
        case ne: False
        with False have "e \<notin> set (take (Suc k) es)"
          using k by (simp add: take_Suc_conv_app_nth v_def)
        with False ne show ?thesis by simp
      qed
    qed
    then show ?thesis by simp
  qed
  finally show ?case
    unfolding es_def ph_def .
qed

lemma convert_key:
  "cr_key (fst (convertTemplateToI18n g t p))
     = fst (foldl convert_step (t, []) (zip (template_variables t)
         [0 ..< length (template_variables t)]))"
  by (simp add: convertTemplateToI18n_def Let_def split: prod.splits)

text \<open>
  C4, as stated, fails: every marker with the expression of an earlier marker is replaced
  together with that marker, by its placeholder. In \<^verbatim>\<open>${x}${x}\<close> the second marker
  appears in the key as \<^verbatim>\<open>{a}\<close>, not as \<^verbatim>\<open>{b}\<close>, while the mapping records \<open>x\<close> under
  both \<open>a\<close> and \<open>b\<close>.
\<close>

theorem repeated_marker_keeps_first_placeholder:
  "cr_key (fst (convertTemplateToI18n Map.empty (asc ''${x}${x}'') (asc ''$t''))) = asc ''{a}{a}''
   \<and> cr_mapping (fst (convertTemplateToI18n Map.empty (asc ''${x}${x}'') (asc ''$t'')))
       = [(asc ''a'', asc ''x''), (asc ''b'', asc ''x'')]"
  by (simp add: js_eval)

text \<open>
  C4, amended. For a text whose markers hold non-empty expressions without \<^verbatim>\<open>$\<close> and
  \<^verbatim>\<open>}\<close>, between parts without \<^verbatim>\<open>$\<close>, the expressions are found in their order, the
  mapping records the expression of the marker at position \<open>i\<close> under the name
  \<open>String.fromCharCode(97 + i)\<close>, so that a repeated expression takes a new name, and in
  the key every marker is replaced by the placeholder of the first marker with the same
  expression.
\<close>

theorem marker_replaced_by_first_placeholder:
  assumes "36 \<notin> set t0"
    and "\<forall>(e, w) \<in> set segs. e \<noteq> [] \<and> 36 \<notin> set e \<and> 125 \<notin> set e \<and> 36 \<notin> set w"
    and "length segs \<le> 65439"
  shows "template_variables
           (t0 @ concat (map (\<lambda>(e, w). asc ''${'' @ e @ asc ''}'' @ w) segs)) = map fst segs
     \<and> cr_mapping (fst (convertTemplateToI18n g
           (t0 @ concat (map (\<lambda>(e, w). asc ''${'' @ e @ asc ''}'' @ w) segs)) p))
         = map (\<lambda>i. (fromCharCode (97 + i), fst (segs ! i))) [0 ..< length segs]
     \<and> cr_key (fst (convertTemplateToI18n g
           (t0 @ concat (map (\<lambda>(e, w). asc ''${'' @ e @ asc ''}'' @ w) segs)) p))
         = t0 @ concat (map (\<lambda>(e, w).
             (asc ''{''
                @ fromCharCode (97 + length (takeWhile (\<lambda>x. x \<noteq> e) (map fst segs)))
                @ asc ''}'') @ w) segs)"
proof -
  define T where "T = t0 @ concat (map (\<lambda>(e, w). asc ''${'' @ e @ asc ''}'' @ w) segs)"
  have s': "\<forall>(e, w) \<in> set segs. e \<noteq> [] \<and> 125 \<notin> set e \<and> 36 \<notin> set w"
    using assms(2) by auto
  have tv: "template_variables T = map fst segs"
    unfolding template_variables_def T_def
    using variable_matches[OF assms(1) s', of None 0] by simp
  have l: "length (template_variables T) \<le> 65439"
    unfolding tv using assms(3) by simp
  have mp: "cr_mapping (fst (convertTemplateToI18n g T p))
      = map (\<lambda>i. (fromCharCode (97 + i), fst (segs ! i))) [0 ..< length segs]"
    unfolding convert_mapping convert_fold_mapping[OF l] unfolding tv by simp
  have "cr_key (fst (convertTemplateToI18n g T p))
      = t0 @ concat (map (\<lambda>(e, w).
           (if e \<in> set (take (length segs) (map fst segs))
            then asc ''{''
                   @ fromCharCode (97 + length (takeWhile (\<lambda>x. x \<noteq> e) (map fst segs)))
                   @ asc ''}''
            else asc ''${'' @ e @ asc ''}'') @ w) segs)"
    unfolding convert_key tv
    using convert_fold_key[OF assms, of "length segs" "[]"] by (simp add: T_def)
  also have "\<dots> = t0 @ concat (map (\<lambda>(e, w).
             (asc ''{''
                @ fromCharCode (97 + length (takeWhile (\<lambda>x. x \<noteq> e) (map fst segs)))
                @ asc ''}'') @ w) segs)"
  proof -
    have "map (\<lambda>(e, w).
           (if e \<in> set (take (length segs) (map fst segs))
            then asc ''{''
                   @ fromCharCode (97 + length (takeWhile (\<lambda>x. x \<noteq> e) (map fst segs)))
                   @ asc ''}''
            else asc ''${'' @ e @ asc ''}'') @ w) segs
        = map (\<lambda>(e, w).
             (asc ''{''
                @ fromCharCode (97 + length (takeWhile (\<lambda>x. x \<noteq> e) (map fst segs)))
                @ asc ''}'') @ w) segs"
      by (rule map_cong) force+
    then show ?thesis
      by (rule arg_cong[where f = "\<lambda>x. t0 @ concat x"])
  qed
  finally show ?thesis
    using tv mp unfolding T_def by simp
qed

theorem marker_replaced_by_first_placeholder_witness:
  "template_variables (asc ''n=${x}-${y}+${x}'') = [asc ''x'', asc ''y'', asc ''x'']
   \<and> cr_mapping (fst (convertTemplateToI18n Map.empty (asc ''n=${x}-${y}+${x}'') (asc ''$t'')))
       = [(asc ''a'', asc ''x''), (asc ''b'', asc ''y''), (asc ''c'', asc ''x'')]
   \<and> cr_key (fst (convertTemplateToI18n Map.empty (asc ''n=${x}-${y}+${x}'') (asc ''$t'')))
       = asc ''n={a}-{b}+{a}''"
proof -
  let ?segs = "[(asc ''x'', asc ''-''), (asc ''y'', asc ''+''), (asc ''x'', [])]"
  have a: "36 \<notin> set (asc ''n='')"
    by (simp add: asc_def)
  have b: "\<forall>(e, w) \<in> set ?segs. e \<noteq> [] \<and> 36 \<notin> set e \<and> 125 \<notin> set e \<and> 36 \<notin> set w"
    by (simp add: asc_def)
  have c: "length ?segs \<le> 65439"
    by simp
  have t: "asc ''n='' @ concat (map (\<lambda>(e, w). asc ''${'' @ e @ asc ''}'' @ w) ?segs)
      = asc ''n=${x}-${y}+${x}''"
    by (simp add: asc_def)
  from marker_replaced_by_first_placeholder[OF a b c, of Map.empty "asc ''$t''"]
  show ?thesis
    unfolding t by (simp add: asc_def fromCharCode_def)
qed
end
